theory Spec2Isabelle
  imports Complex_Main
begin

section \<open>Numbers\<close>

text \<open>
  The engine computes with JavaScript numbers. They are modelled as real numbers:
  the arithmetic of \<^verbatim>\<open>Filters.js\<close> is taken exactly, and the values
  \<^verbatim>\<open>NaN\<close> and \<^verbatim>\<open>Infinity\<close> have no counterpart. \<^verbatim>\<open>Math.round\<close>
  rounds to the nearest integer, a tie going up. Where a number is written as text or
  read from text, the conversion is that of the 64-bit floating-point numbers (see the
  strings of the runtime below).
\<close>

definition Math_round :: "real \<Rightarrow> real" where
  "Math_round x = of_int \<lfloor>x + 1 / 2\<rfloor>"

definition isKindaSortaEqual :: "real \<Rightarrow> real \<Rightarrow> real \<Rightarrow> bool" where
  "isKindaSortaEqual inValue1 inValue2 inTolerance =
     (if inValue1 > (inValue2 + inTolerance) then False
      else if inValue1 < (inValue2 - inTolerance) then False
      else True)"

definition xlate255ColorToNormalizedColor :: "real \<Rightarrow> real" where
  "xlate255ColorToNormalizedColor in255Color =
     (let c = (if 255 < in255Color then 255 else in255Color);
          f255Color = c * 1.00;
          fNormalizedColor = f255Color / 255.0
      in fNormalizedColor)"

definition xlateNormalizedColorTo255Color :: "real \<Rightarrow> real" where
  "xlateNormalizedColorTo255Color inNormalizedColor =
     (let n0 = (if 0.0 > inNormalizedColor then 0.0 else inNormalizedColor);
          n1 = (if 1.0 < n0 then 1.0 else n0);
          i255Color = Math_round (n1 * 255)
      in i255Color)"

section \<open>Color\<close>

text \<open>
  A \<^verbatim>\<open>Color\<close> object: the four channels, the \<^verbatim>\<open>transparent\<close> override and the
  \<^verbatim>\<open>normalized\<close> tag. The methods of \<^verbatim>\<open>Color.prototype\<close> that assign to
  \<^verbatim>\<open>this\<close> are functions from the old object to the new one; who shares the object
  is the business of the store below.
\<close>

record color =
  r :: real
  g :: real
  b :: real
  a :: real
  transparent :: bool
  normalized :: bool

text \<open>The constructor; an omitted alpha is 1.0, an omitted transparent flag is false.\<close>

definition Color :: "real \<Rightarrow> real \<Rightarrow> real \<Rightarrow> real option \<Rightarrow> bool option \<Rightarrow> color" where
  "Color inRed inGreen inBlue inAlpha inTransparent =
     \<lparr> r = inRed, g = inGreen, b = inBlue,
       a = (case inAlpha of None \<Rightarrow> 1.0 | Some x \<Rightarrow> x),
       transparent = (case inTransparent of None \<Rightarrow> False | Some t \<Rightarrow> t),
       normalized = False \<rparr>"

definition Color_isEqual :: "color \<Rightarrow> color \<Rightarrow> real \<Rightarrow> bool" where
  "Color_isEqual this inColor inTolerance =
     (let tolerance = (if inTolerance \<noteq> 0 then inTolerance else 0) in
      if isKindaSortaEqual (r this) (r inColor) tolerance = False then False
      else if isKindaSortaEqual (g this) (g inColor) tolerance = False then False
      else if isKindaSortaEqual (b this) (b inColor) tolerance = False then False
      else if isKindaSortaEqual (a this) (a inColor) tolerance = False then False
      else if transparent this \<noteq> transparent inColor then False
      else True)"

definition Color_invert :: "color \<Rightarrow> color" where
  "Color_invert this = this\<lparr> r := 255 - r this, g := 255 - g this, b := 255 - b this \<rparr>"

definition Color_grayscale :: "color \<Rightarrow> color" where
  "Color_grayscale this =
     (let f0 = r this * 0.299;
          f1 = f0 + g this * 0.587;
          f2 = f1 + b this * 0.114;
          fLuminance = (if normalized this = False then Math_round f2 else f2)
      in this\<lparr> r := fLuminance, g := fLuminance, b := fLuminance \<rparr>)"

definition Color_clamp :: "color \<Rightarrow> color" where
  "Color_clamp this =
     (let mx = (if normalized this then 1.0 else 255);
          r0 = (if r this < 0 then 0 else r this);
          g0 = (if g this < 0 then 0 else g this);
          b0 = (if b this < 0 then 0 else b this);
          a0 = (if a this < 0.0 then 0.0 else a this)
      in this\<lparr> r := (if r0 > mx then mx else r0),
                g := (if g0 > mx then mx else g0),
                b := (if b0 > mx then mx else b0),
                a := (if a0 > 1.0 then 1.0 else a0) \<rparr>)"

definition Color_assignNumber :: "color \<Rightarrow> real \<Rightarrow> color" where
  "Color_assignNumber this inNumber =
     this\<lparr> r := inNumber, g := inNumber, b := inNumber, a := inNumber \<rparr>"

definition Color_multiplyNumber :: "color \<Rightarrow> real \<Rightarrow> color" where
  "Color_multiplyNumber this inNumber =
     this\<lparr> r := r this * inNumber, g := g this * inNumber,
           b := b this * inNumber, a := a this * inNumber \<rparr>"

definition Color_addColor :: "color \<Rightarrow> color \<Rightarrow> color" where
  "Color_addColor this inColor =
     this\<lparr> r := r this + r inColor, g := g this + g inColor,
           b := b this + b inColor, a := a this + a inColor \<rparr>"

text \<open>
  \<^verbatim>\<open>getNormalizedColor\<close> and \<^verbatim>\<open>get255Color\<close> build a new object with
  \<^verbatim>\<open>new Color()\<close> (alpha 1.0, not transparent) and then assign the four channels
  and the tag.
\<close>

definition Color_getNormalizedColor :: "color \<Rightarrow> color" where
  "Color_getNormalizedColor this =
     (if normalized this = False
      then \<lparr> r = xlate255ColorToNormalizedColor (r this),
             g = xlate255ColorToNormalizedColor (g this),
             b = xlate255ColorToNormalizedColor (b this),
             a = a this, transparent = False, normalized = True \<rparr>
      else \<lparr> r = r this, g = g this, b = b this,
             a = a this, transparent = False, normalized = True \<rparr>)"

definition Color_get255Color :: "color \<Rightarrow> color" where
  "Color_get255Color this =
     (if normalized this = False
      then \<lparr> r = r this, g = g this, b = b this,
             a = a this, transparent = False, normalized = False \<rparr>
      else \<lparr> r = xlateNormalizedColorTo255Color (r this),
             g = xlateNormalizedColorTo255Color (g this),
             b = xlateNormalizedColorTo255Color (b this),
             a = a this, transparent = False, normalized = False \<rparr>)"

text \<open>The table \<^verbatim>\<open>Color.blendOperation\<close>.\<close>

definition CROSS :: int where "CROSS = 1"
definition ADDITIVE :: int where "ADDITIVE = 2"
definition ADDITIVE_ALPHA :: int where "ADDITIVE_ALPHA = 3"
definition MULTIPLIED :: int where "MULTIPLIED = 4"

text \<open>
  \<^verbatim>\<open>Color.prototype.blend\<close>: \<^verbatim>\<open>this\<close> is the destination. Both colors are
  normalized into fresh objects, combined under the mode (no branch is taken for a
  mode outside the table), capped at 1.0, and written back to \<^verbatim>\<open>this\<close>.
\<close>

definition Color_blend :: "color \<Rightarrow> color \<Rightarrow> int \<Rightarrow> color" where
  "Color_blend this inSourceColor inBlendOperation =
     (let normalizedSource = Color_getNormalizedColor inSourceColor;
          normalizedThis = Color_getNormalizedColor this;
          sa = a normalizedSource;
          n1 =
            (if CROSS = inBlendOperation then
               normalizedThis\<lparr>
                 r := r normalizedThis * (1.0 - sa) + r normalizedSource * sa,
                 g := g normalizedThis * (1.0 - sa) + g normalizedSource * sa,
                 b := b normalizedThis * (1.0 - sa) + b normalizedSource * sa,
                 a := a normalizedThis * (1.0 - sa) + sa * sa \<rparr>
             else if ADDITIVE = inBlendOperation then
               normalizedThis\<lparr>
                 r := r normalizedThis + r normalizedSource,
                 g := g normalizedThis + g normalizedSource,
                 b := b normalizedThis + b normalizedSource,
                 a := a normalizedThis + sa \<rparr>
             else if ADDITIVE_ALPHA = inBlendOperation then
               normalizedThis\<lparr>
                 r := r normalizedThis + r normalizedSource * sa,
                 g := g normalizedThis + g normalizedSource * sa,
                 b := b normalizedThis + b normalizedSource * sa,
                 a := a normalizedThis + sa * sa \<rparr>
             else if MULTIPLIED = inBlendOperation then
               normalizedThis\<lparr>
                 r := r normalizedThis * r normalizedSource,
                 g := g normalizedThis * g normalizedSource,
                 b := b normalizedThis * b normalizedSource,
                 a := a normalizedThis * sa \<rparr>
             else normalizedThis);
          n2 = n1\<lparr> r := (if 1.0 < r n1 then 1.0 else r n1),
                    g := (if 1.0 < g n1 then 1.0 else g n1),
                    b := (if 1.0 < b n1 then 1.0 else b n1),
                    a := (if 1.0 < a n1 then 1.0 else a n1) \<rparr>
      in this\<lparr> r := xlateNormalizedColorTo255Color (r n2),
                g := xlateNormalizedColorTo255Color (g n2),
                b := xlateNormalizedColorTo255Color (b n2),
                a := a n2 \<rparr>)"

section \<open>The object store and the pixel surface\<close>

text \<open>
  \<^verbatim>\<open>MinimalView.getColor\<close> returns the stored \<^verbatim>\<open>Color\<close> object itself and
  \<^verbatim>\<open>setColor\<close> stores the object it is given, so two pixels, or two surfaces, can
  hold one and the same object. The model keeps the objects in a store: an address is a
  natural number, \<open>heap\<close> maps an address to the object there, and \<open>fresh\<close> is the
  next unused address. A surface is an object too, named by its number in \<open>views\<close>;
  its \<open>colors\<close> are rows of addresses, \<open>None\<close> standing for \<^verbatim>\<open>null\<close>.
  The progress, log and warn callbacks do not touch the store and are left out.
\<close>

datatype error = TypeError | NotANumber

record view =
  width :: int
  height :: int
  colors :: "nat option list list"
  backgroundColor :: "nat option"

record world =
  heap :: "nat \<Rightarrow> color"
  fresh :: nat
  views :: "nat \<Rightarrow> view"

text \<open>\<^verbatim>\<open>new Color(...)\<close> followed by the assignments that fill the object in.\<close>

definition alloc :: "world \<Rightarrow> color \<Rightarrow> nat \<times> world" where
  "alloc w c = (fresh w, w\<lparr> heap := (heap w)(fresh w := c), fresh := Suc (fresh w) \<rparr>)"

definition getWidth :: "world \<Rightarrow> nat \<Rightarrow> int" where
  "getWidth w v = width (views w v)"

definition getHeight :: "world \<Rightarrow> nat \<Rightarrow> int" where
  "getHeight w v = height (views w v)"

definition getColor :: "world \<Rightarrow> nat \<Rightarrow> int \<Rightarrow> int \<Rightarrow> nat option" where
  "getColor w v inX inY =
     (let cs = colors (views w v) in
      if 0 > inX then None
      else if 0 > inY then None
      else if inY \<ge> int (length cs) then None
      else if inX \<ge> int (length (cs ! nat inY)) then None
      else cs ! nat inY ! nat inX)"

definition setColor :: "world \<Rightarrow> nat \<Rightarrow> int \<Rightarrow> int \<Rightarrow> nat option \<Rightarrow> world" where
  "setColor w v inX inY inColor =
     (case inColor of
        None \<Rightarrow> w
      | Some p \<Rightarrow>
          (let cs = colors (views w v) in
           if 0 > inX then w
           else if 0 > inY then w
           else if inY \<ge> int (length cs) then w
           else if inX \<ge> int (length (cs ! nat inY)) then w
           else w\<lparr> views := (views w)
                  (v := (views w v)
                     \<lparr> colors := cs[nat inY := (cs ! nat inY)[nat inX := Some p]] \<rparr>) \<rparr>))"

text \<open>
  \<^verbatim>\<open>MinimalView.prototype.fill\<close>; the argument is \<open>None\<close> when the caller passes
  none. The bounds of a \<^verbatim>\<open>for\<close> loop are read from the surface before the loop: no
  loop body of the engine changes a width or a height.
\<close>

definition MinimalView_fill :: "world \<Rightarrow> nat \<Rightarrow> nat option \<Rightarrow> world" where
  "MinimalView_fill w this inColor =
     fold (\<lambda>xLoop. fold (\<lambda>yLoop w'. setColor w' this xLoop yLoop inColor)
                       [0..getHeight w this - 1])
          [0..getWidth w this - 1] w"

text \<open>The color a surface shows at a coordinate: the object its pixel points to.\<close>

definition pixel :: "world \<Rightarrow> nat \<Rightarrow> int \<Rightarrow> int \<Rightarrow> color option" where
  "pixel w v x y = map_option (heap w) (getColor w v x y)"

section \<open>Point filters\<close>

definition grayscale_at :: "nat \<Rightarrow> nat \<Rightarrow> int \<Rightarrow> int \<Rightarrow> world \<Rightarrow> world" where
  "grayscale_at src dst iLoop1 iLoop2 w =
     (case getColor w src iLoop1 iLoop2 of
        None \<Rightarrow> w
      | Some oColor \<Rightarrow>
          setColor (w\<lparr> heap := (heap w)(oColor := Color_grayscale (heap w oColor)) \<rparr>)
                   dst iLoop1 iLoop2 (Some oColor))"

definition Filters_grayscale :: "world \<Rightarrow> nat \<Rightarrow> nat \<Rightarrow> world" where
  "Filters_grayscale w inSourceView inDestinationView =
     fold (\<lambda>iLoop1. fold (grayscale_at inSourceView inDestinationView iLoop1)
                        [0..getHeight w inSourceView - 1])
          [0..getWidth w inSourceView - 1] w"

definition invert_at :: "nat \<Rightarrow> nat \<Rightarrow> int \<Rightarrow> int \<Rightarrow> world \<Rightarrow> world" where
  "invert_at src dst iLoop1 iLoop2 w =
     (case getColor w src iLoop1 iLoop2 of
        None \<Rightarrow> w
      | Some oColor \<Rightarrow>
          setColor (w\<lparr> heap := (heap w)(oColor := Color_invert (heap w oColor)) \<rparr>)
                   dst iLoop1 iLoop2 (Some oColor))"

definition Filters_invert :: "world \<Rightarrow> nat \<Rightarrow> nat \<Rightarrow> world" where
  "Filters_invert w inSourceView inDestinationView =
     fold (\<lambda>iLoop1. fold (invert_at inSourceView inDestinationView iLoop1)
                        [0..getHeight w inSourceView - 1])
          [0..getWidth w inSourceView - 1] w"

definition blend_at :: "nat \<Rightarrow> nat \<Rightarrow> nat \<Rightarrow> int \<Rightarrow> int \<Rightarrow> int \<Rightarrow> world \<Rightarrow> world" where
  "blend_at src bl dst inBlendMode iLoop1 iLoop2 w =
     (case getColor w src iLoop1 iLoop2 of
        None \<Rightarrow> w
      | Some oColor \<Rightarrow>
          (case getColor w bl iLoop1 iLoop2 of
             None \<Rightarrow> w
           | Some oBlendColor \<Rightarrow>
               setColor
                 (w\<lparr> heap := (heap w)
                      (oColor := Color_blend (heap w oColor) (heap w oBlendColor) inBlendMode) \<rparr>)
                 dst iLoop1 iLoop2 (Some oColor)))"

definition Filters_blend :: "world \<Rightarrow> nat \<Rightarrow> nat \<Rightarrow> nat \<Rightarrow> int \<Rightarrow> world" where
  "Filters_blend w inSourceView inBlendView inDestinationView inBlendMode =
     fold (\<lambda>iLoop1. fold (blend_at inSourceView inBlendView inDestinationView inBlendMode iLoop1)
                        [0..getHeight w inSourceView - 1])
          [0..getWidth w inSourceView - 1] w"

text \<open>
  \<^verbatim>\<open>Filters.prototype.translate\<close>. The fill color is recorded in the destination's
  \<^verbatim>\<open>backgroundColor\<close> and \<^verbatim>\<open>fill\<close> is then called with no argument.
\<close>

definition Filters_translate ::
  "world \<Rightarrow> nat \<Rightarrow> nat \<Rightarrow> int \<Rightarrow> int \<Rightarrow> nat option \<Rightarrow> world" where
  "Filters_translate w inSourceView inDestinationView inOffsetX inOffsetY inFillColor =
     (let (fillColor, w1) =
            (case inFillColor of
               Some p \<Rightarrow> (p, w)
             | None \<Rightarrow> alloc w (Color 255 255 255 (Some 1.0) (Some False)));
          w2 = w1\<lparr> views := (views w1)
                  (inDestinationView :=
                     (views w1 inDestinationView)\<lparr> backgroundColor := Some fillColor \<rparr>) \<rparr>;
          w3 = MinimalView_fill w2 inDestinationView None
      in fold (\<lambda>iYLoop. fold (\<lambda>iXLoop w'.
                   setColor w' inDestinationView (iXLoop + inOffsetX) (iYLoop + inOffsetY)
                            (getColor w' inSourceView iXLoop iYLoop))
                 [0..getWidth w3 inSourceView - 1])
              [0..getHeight w3 inSourceView - 1] w3)"

text \<open>
  A loop whose body can throw: the first error ends the run, as the exception does.
\<close>

fun forE :: "int list \<Rightarrow> (int \<Rightarrow> 's \<Rightarrow> error + 's) \<Rightarrow> 's \<Rightarrow> error + 's" where
  "forE [] body s = Inr s"
| "forE (i # is) body s =
     (case body i s of Inl e \<Rightarrow> Inl e | Inr s' \<Rightarrow> forE is body s')"

section \<open>Erosion\<close>

text \<open>
  One neighbor of the inner counting loops of \<^verbatim>\<open>Filters.prototype.erosion\<close>. Reading
  a channel of an absent neighbor throws.
\<close>

definition erosion_neighbor ::
  "world \<Rightarrow> nat \<Rightarrow> real \<Rightarrow> nat \<Rightarrow> int \<Rightarrow> int \<Rightarrow> int \<Rightarrow> int \<Rightarrow> int \<Rightarrow> error + int" where
  "erosion_neighbor w src inTolerance inNeighborColor iXloop iYLoop sYNeighbor sXNeighbor sCount =
     (if 0 < (iYLoop + sYNeighbor) then
        (case getColor w src (iXloop + sXNeighbor) (iYLoop + sYNeighbor) of
           None \<Rightarrow> Inl TypeError
         | Some oNeighborColor \<Rightarrow>
             (if isKindaSortaEqual (r (heap w inNeighborColor)) (r (heap w oNeighborColor))
                   inTolerance = True
               \<and> isKindaSortaEqual (g (heap w inNeighborColor)) (g (heap w oNeighborColor))
                   inTolerance = True
               \<and> isKindaSortaEqual (b (heap w inNeighborColor)) (b (heap w oNeighborColor))
                   inTolerance = True
              then Inr (sCount + 1) else Inr sCount))
      else Inr sCount)"

definition erosion_at ::
  "nat \<Rightarrow> nat \<Rightarrow> nat \<Rightarrow> real \<Rightarrow> real \<Rightarrow> nat \<Rightarrow> nat \<Rightarrow> int \<Rightarrow> int \<Rightarrow> world \<Rightarrow> error + world" where
  "erosion_at src dst inErosionColor inThreshold inTolerance inNeighborColor inReplacementColor
              iYLoop iXloop w =
     (case getColor w src iXloop iYLoop of
        None \<Rightarrow> Inl TypeError
      | Some oColor \<Rightarrow>
          (let w1 = setColor w dst iXloop iYLoop (Some oColor) in
           if Color_isEqual (heap w1 oColor) (heap w1 inErosionColor) inTolerance = True then
             (case forE [-1..1] (\<lambda>sYNeighbor. forE [-1..1]
                      (erosion_neighbor w1 src inTolerance inNeighborColor iXloop iYLoop sYNeighbor))
                    0 of
                Inl e \<Rightarrow> Inl e
              | Inr sCount \<Rightarrow>
                  (if of_int sCount > inThreshold
                   then Inr (setColor w1 dst iXloop iYLoop (Some inReplacementColor))
                   else Inr w1))
           else Inr w1))"

definition Filters_erosion ::
  "world \<Rightarrow> nat \<Rightarrow> nat \<Rightarrow> nat \<Rightarrow> real \<Rightarrow> real \<Rightarrow> nat \<Rightarrow> nat \<Rightarrow> error + world" where
  "Filters_erosion w inSourceView inDestinationView inErosionColor inThreshold inTolerance
                   inNeighborColor inReplacementColor =
     forE [1..getHeight w inSourceView - 2]
       (\<lambda>iYLoop. forE [1..getWidth w inSourceView - 2]
          (erosion_at inSourceView inDestinationView inErosionColor inThreshold inTolerance
                      inNeighborColor inReplacementColor iYLoop))
       w"

section \<open>Convolution\<close>

text \<open>The remainder operator \<^verbatim>\<open>%\<close>: the quotient is truncated towards zero.\<close>

definition js_rem :: "real \<Rightarrow> real \<Rightarrow> real" where
  "js_rem x y = x - y * of_int (if x / y < 0 then \<lceil>x / y\<rceil> else \<lfloor>x / y\<rfloor>)"

text \<open>
  One kernel cell of \<^verbatim>\<open>Filters.prototype.maskFilter\<close>. The accumulator is
  (red, green, blue, alpha). The kernel is read as \<^verbatim>\<open>inMask[filterX][filterY]\<close>: a
  missing row throws, and a missing cell makes the sum \<^verbatim>\<open>NaN\<close>, which the model
  reports as \<open>NotANumber\<close>.
\<close>

definition maskFilter_cell ::
  "world \<Rightarrow> nat \<Rightarrow> real list list \<Rightarrow> int \<Rightarrow> int \<Rightarrow> int \<Rightarrow> int
     \<Rightarrow> real \<times> real \<times> real \<times> real \<Rightarrow> error + real \<times> real \<times> real \<times> real" where
  "maskFilter_cell w src inMask iXLoop iYLoop filterX filterY acc =
     (let filterWidth = real (length (inMask ! 0));
          filterHeight = real (length inMask);
          vw = of_int (width (views w src));
          vh = of_int (height (views w src));
          imageX = \<lfloor>Math_round (js_rem (of_int iXLoop - filterWidth / 2 + of_int filterX + vw) vw)\<rfloor>;
          imageY = \<lfloor>Math_round (js_rem (of_int iYLoop - filterHeight / 2 + of_int filterY + vh) vh)\<rfloor>
      in case getColor w src imageX imageY of
           None \<Rightarrow> Inr acc
         | Some currentColor \<Rightarrow>
             (if filterX \<ge> int (length inMask) then Inl TypeError
              else if filterY \<ge> int (length (inMask ! nat filterX)) then Inl NotANumber
              else (case acc of (red, green, blue, alpha) \<Rightarrow>
                      (let m = inMask ! nat filterX ! nat filterY;
                           c = heap w currentColor
                       in Inr (red + r c * m, green + g c * m, blue + b c * m, a c)))))"

definition maskFilter_at ::
  "nat \<Rightarrow> nat \<Rightarrow> real list list \<Rightarrow> real \<Rightarrow> real \<Rightarrow> int \<Rightarrow> int \<Rightarrow> world \<Rightarrow> error + world" where
  "maskFilter_at src dst inMask factor bias iXLoop iYLoop w =
     (case forE [0..int (length (inMask ! 0)) - 1]
             (\<lambda>filterX. forE [0..int (length inMask) - 1]
                (maskFilter_cell w src inMask iXLoop iYLoop filterX))
             (0.0, 0.0, 0.0, 0.0) of
        Inl e \<Rightarrow> Inl e
      | Inr (red, green, blue, alpha) \<Rightarrow>
          (let newColor = Color (Math_round (factor * red + bias))
                                (Math_round (factor * green + bias))
                                (Math_round (factor * blue + bias)) (Some alpha) None;
               (p, w1) = alloc w (Color_clamp newColor)
           in Inr (setColor w1 dst iXLoop iYLoop (Some p))))"

definition Filters_maskFilter ::
  "world \<Rightarrow> nat \<Rightarrow> nat \<Rightarrow> real list list \<Rightarrow> real \<Rightarrow> real \<Rightarrow> error + world" where
  "Filters_maskFilter w inSourceView inDestinationView inMask inFactor inBias =
     (if inMask = [] then Inl TypeError
      else
        (let factor = (if inFactor \<noteq> 0 then inFactor else 1.0);
             bias = (if inBias \<noteq> 0 then inBias else 0.0)
         in forE [0..getWidth w inSourceView - 1]
              (\<lambda>iXLoop. forE [0..getHeight w inSourceView - 1]
                 (maskFilter_at inSourceView inDestinationView inMask factor bias iXLoop))
              w))"

section \<open>Edge detection\<close>

definition aQuickMask :: "real list list" where
  "aQuickMask = [[-1, 0, -1], [0, 4, 0], [-1, 0, -1]]"

text \<open>
  One cell of the fixed mask in \<^verbatim>\<open>Filters.prototype.detectEdges\<close>; the state is the
  running sum and the alpha of the last neighbor read. Each neighbor is normalized into
  a fresh object before it is scaled, so no stored object changes.
\<close>

definition detectEdges_cell ::
  "world \<Rightarrow> nat \<Rightarrow> int \<Rightarrow> int \<Rightarrow> int \<Rightarrow> int \<Rightarrow> color \<times> real \<Rightarrow> color \<times> real" where
  "detectEdges_cell w src iLoop1 iLoop2 sMaskLoop1 sMaskLoop2 st =
     (let sMaskValue = aQuickMask ! nat (sMaskLoop1 + 1) ! nat (sMaskLoop2 + 1) in
      case getColor w src (iLoop1 + sMaskLoop1) (iLoop2 + sMaskLoop2) of
        None \<Rightarrow> st
      | Some p \<Rightarrow>
          (let oColor = Color_getNormalizedColor (heap w p) in
           (Color_addColor (fst st) (Color_multiplyNumber oColor sMaskValue), a oColor)))"

text \<open>
  The body of the scan. \<^verbatim>\<open>oSumColor\<close> starts as a normalized color with every
  channel assigned 0. \<^verbatim>\<open>oGraySumColor\<close> is the same object as \<^verbatim>\<open>oSumColor\<close>, so
  the color written is the grayscaled sum. An absent center pixel throws.
\<close>

definition detectEdges_at :: "nat \<Rightarrow> nat \<Rightarrow> int \<Rightarrow> int \<Rightarrow> world \<Rightarrow> error + world" where
  "detectEdges_at src dst iLoop1 iLoop2 w =
     (case getColor w src iLoop1 iLoop2 of
        None \<Rightarrow> Inl TypeError
      | Some p \<Rightarrow>
          (let oOutColor = Color_grayscale (Color_getNormalizedColor (heap w p));
               oSumColor0 = Color_assignNumber
                              (Color_getNormalizedColor (Color 0 0 0 None None)) 0;
               (oSumColor1, fAlphaValue) =
                  fold (\<lambda>sMaskLoop1. fold (detectEdges_cell w src iLoop1 iLoop2 sMaskLoop1)
                                          [-1..1])
                       [-1..1] (oSumColor0, 1.0);
               oGraySumColor = Color_grayscale (Color_clamp oSumColor1)
           in if r oGraySumColor > r oOutColor then
                (let oNewColor = (Color_get255Color oGraySumColor)\<lparr> a := fAlphaValue \<rparr>;
                     (q, w1) = alloc w oNewColor
                 in Inr (setColor w1 dst iLoop1 iLoop2 (Some q)))
              else Inr w))"

definition Filters_detectEdges :: "world \<Rightarrow> nat \<Rightarrow> nat \<Rightarrow> error + world" where
  "Filters_detectEdges w inSourceView inDestinationView =
     forE [1..getWidth w inSourceView - 2]
       (\<lambda>iLoop1. forE [1..getHeight w inSourceView - 2]
          (detectEdges_at inSourceView inDestinationView iLoop1))
       w"

section \<open>Bilinear interpolation\<close>

text \<open>
  \<^verbatim>\<open>Filters.prototype.bilinearInterpolatePixel\<close> returns \<^verbatim>\<open>null\<close>, a stored object
  (the nearest-pixel fallback) or a new object; the result is the address, with the store
  that holds the new object. The four samples are normalized into fresh objects first.
\<close>

definition Filters_bilinearInterpolatePixel ::
  "world \<Rightarrow> nat \<Rightarrow> real \<Rightarrow> real \<Rightarrow> nat option \<times> world" where
  "Filters_bilinearInterpolatePixel w inView inX inY =
     (let xRounded = \<lfloor>Math_round inX\<rfloor>;
          yRounded = \<lfloor>Math_round inY\<rfloor>
      in if 0 > xRounded then (None, w)
         else if 0 > yRounded then (None, w)
         else if getWidth w inView < xRounded then (None, w)
         else if getHeight w inView < yRounded then (None, w)
         else
           (let iCeilingX = \<lceil>0.0 + inX\<rceil>;
                iCeilingY = \<lceil>0.0 + inY\<rceil>;
                iFloorX = \<lfloor>0.0 + inX\<rfloor>;
                iFloorY = \<lfloor>0.0 + inY\<rfloor>;
                fFractionX = (0.0 + inX) - of_int \<lfloor>0.0 + inX\<rfloor>;
                fFractionY = (0.0 + inY) - of_int \<lfloor>0.0 + inY\<rfloor>;
                fOneMinusX = (0.0 + 1.0) - fFractionX;
                fOneMinusY = (0.0 + 1.0) - fFractionY
            in case getColor w inView iFloorX iFloorY of
                 None \<Rightarrow> (getColor w inView xRounded yRounded, w)
               | Some pFF \<Rightarrow>
              (case getColor w inView iFloorX iCeilingY of
                 None \<Rightarrow> (getColor w inView xRounded yRounded, w)
               | Some pFC \<Rightarrow>
              (case getColor w inView iCeilingX iFloorY of
                 None \<Rightarrow> (getColor w inView xRounded yRounded, w)
               | Some pCF \<Rightarrow>
              (case getColor w inView iCeilingX iCeilingY of
                 None \<Rightarrow> (getColor w inView xRounded yRounded, w)
               | Some pCC \<Rightarrow>
                  (let oFloorXFloorYColor = Color_getNormalizedColor (heap w pFF);
                       oFloorXCeilingYColor = Color_getNormalizedColor (heap w pFC);
                       oCeilingXFloorYColor = Color_getNormalizedColor (heap w pCF);
                       oCeilingXCeilingYColor = Color_getNormalizedColor (heap w pCC);
                       oColor1 = Color_addColor
                                   (Color_multiplyNumber oFloorXFloorYColor fOneMinusX)
                                   (Color_multiplyNumber oCeilingXFloorYColor fFractionX);
                       oColor2 = Color_addColor
                                   (Color_multiplyNumber oFloorXCeilingYColor fOneMinusX)
                                   (Color_multiplyNumber oCeilingXCeilingYColor fFractionX);
                       oColor3 = Color_addColor
                                   (Color_multiplyNumber oColor1 fOneMinusY)
                                   (Color_multiplyNumber oColor2 fFractionY);
                       (q, w1) = alloc w (Color_get255Color (Color_clamp oColor3))
                   in (Some q, w1)))))))"

section \<open>Strings and arrays of the runtime\<close>

text \<open>
  The built-in conversions the engine calls, after the language standard. A number
  that is written as text or read from text is a 64-bit floating-point number (a
  double). The helpers below work on whole numbers: the number of digits of a
  whole number in a base, a power of a base, a base raised to a whole exponent of
  either sign, and the whole part of the logarithm of a positive number.
\<close>

function digitCount :: "int \<Rightarrow> int \<Rightarrow> int" where
  "digitCount base n = (if n \<le> 0 \<or> base \<le> 1 then 0 else digitCount base (n div base) + 1)"
  by pat_completeness auto

termination
proof (relation "measure (\<lambda>(base, n). nat n)")
  show "wf (measure (\<lambda>(base, n). nat n))" by simp
  fix base n :: int
  assume "\<not> (n \<le> 0 \<or> base \<le> 1)"
  then have n: "0 < n" and base: "1 < base" by simp_all
  then have "n div base < n" by (rule int_div_less_self)
  moreover have "0 \<le> n div base" using n base by (simp add: pos_imp_zdiv_nonneg_iff)
  ultimately show "((base, n div base), (base, n)) \<in> measure (\<lambda>(base, n). nat n)"
    using n by simp
qed

declare digitCount.simps [simp del]

function powerOf :: "int \<Rightarrow> int \<Rightarrow> int" where
  "powerOf base n = (if n \<le> 0 then 1 else base * powerOf base (n - 1))"
  by pat_completeness auto

termination
  by (relation "measure (\<lambda>(base, n). nat n)") simp_all

declare powerOf.simps [simp del]

definition scale :: "int \<Rightarrow> int \<Rightarrow> real" where
  "scale base e = (if 0 \<le> e then of_int (powerOf base e) else 1 / of_int (powerOf base (- e)))"

definition ilog :: "int \<Rightarrow> real \<Rightarrow> int" where
  "ilog base x =
     (if 1 \<le> x then digitCount base \<lfloor>x\<rfloor> - 1 else - digitCount base (\<lceil>1 / x\<rceil> - 1))"

text \<open>
  The doubles. Around a number \<open>x\<close> they are the whole multiples of
  \<open>quantum x\<close>, which is 2 to the power of the binary exponent of \<open>x\<close> less 52, the
  exponent never below -1022 (the subnormal numbers). \<open>toDouble\<close> rounds a real number
  to the nearest double, a tie going to the even multiple; a result of 2^1024 or more
  is an infinity, which has no counterpart here and is \<open>None\<close>. \<open>isDouble\<close> holds of
  the finite values a number of the engine can have.
\<close>

definition roundEven :: "real \<Rightarrow> int" where
  "roundEven t =
     (let f = \<lfloor>t\<rfloor>; d = t - of_int f
      in if d < 1 / 2 then f else if 1 / 2 < d then f + 1 else if even f then f else f + 1)"

definition exponent :: "real \<Rightarrow> int" where
  "exponent x = max (ilog 2 \<bar>x\<bar>) (- 1022)"

definition quantum :: "real \<Rightarrow> real" where
  "quantum x = scale 2 (exponent x - 52)"

definition toDouble :: "real \<Rightarrow> real option" where
  "toDouble x =
     (if x = 0 then Some 0
      else
        (let y = of_int (roundEven (\<bar>x\<bar> / quantum x)) * quantum x
         in if scale 2 1024 \<le> y then None else Some (sgn x * y)))"

definition isDouble :: "real \<Rightarrow> bool" where
  "isDouble x = (toDouble x = Some x)"

text \<open>
  \<^verbatim>\<open>parseInt\<close> and \<^verbatim>\<open>parseFloat\<close> skip leading white space, read the longest prefix
  that is a number, and give the double nearest to its value; \<^verbatim>\<open>parseInt\<close> reads
  hexadecimal after \<^verbatim>\<open>0x\<close>. The result \<open>None\<close> is \<^verbatim>\<open>NaN\<close> (no number was read)
  or an infinity (the value read is too large). The literal \<^verbatim>\<open>Infinity\<close> is not
  modelled.
\<close>

definition isWhiteSpace :: "char \<Rightarrow> bool" where
  "isWhiteSpace c = (let n = (of_char c :: int) in n = 32 \<or> (9 \<le> n \<and> n \<le> 13))"

definition digitOf :: "int \<Rightarrow> char \<Rightarrow> int option" where
  "digitOf radix c =
     (let n = (of_char c :: int);
          d = (if 48 \<le> n \<and> n \<le> 57 then n - 48
               else if 97 \<le> n \<and> n \<le> 122 then n - 87
               else if 65 \<le> n \<and> n \<le> 90 then n - 55
               else 36)
      in if d < radix then Some d else None)"

definition isDigit :: "int \<Rightarrow> char \<Rightarrow> bool" where
  "isDigit radix c = (case digitOf radix c of None \<Rightarrow> False | Some d \<Rightarrow> True)"

definition digitsValue :: "int \<Rightarrow> string \<Rightarrow> int" where
  "digitsValue radix ds =
     foldl (\<lambda>n c. n * radix + (case digitOf radix c of None \<Rightarrow> 0 | Some d \<Rightarrow> d)) 0 ds"

definition readSign :: "string \<Rightarrow> real \<times> string" where
  "readSign s =
     (case s of
        [] \<Rightarrow> (1, s)
      | c # t \<Rightarrow> if c = CHR ''-'' then (-1, t) else if c = CHR ''+'' then (1, t) else (1, s))"

definition parseInt :: "string \<Rightarrow> real option" where
  "parseInt inString =
     (let (sgn, s1) = readSign (dropWhile isWhiteSpace inString);
          hex = (take 2 s1 = ''0x'' \<or> take 2 s1 = ''0X'');
          radix = (if hex then 16 else 10);
          s2 = (if hex then drop 2 s1 else s1);
          ds = takeWhile (isDigit radix) s2
      in if ds = [] then None else toDouble (sgn * of_int (digitsValue radix ds)))"

text \<open>
  The value of the longest prefix that is an unsigned decimal literal: digits, an
  optional point and digits, and an optional exponent part (an \<^verbatim>\<open>e\<close>, an optional
  sign, digits).
\<close>

definition decimalValue :: "string \<Rightarrow> real option" where
  "decimalValue s1 =
     (let ip = takeWhile (isDigit 10) s1;
          s2 = dropWhile (isDigit 10) s1;
          fp = (if take 1 s2 = ''.'' then takeWhile (isDigit 10) (drop 1 s2) else []);
          s3 = (if take 1 s2 = ''.'' then dropWhile (isDigit 10) (drop 1 s2) else s2);
          (esgn, s4) = readSign (drop 1 s3);
          ed = (if take 1 s3 = ''e'' \<or> take 1 s3 = ''E'' then takeWhile (isDigit 10) s4 else []);
          m = of_int (digitsValue 10 ip) + of_int (digitsValue 10 fp) / 10 ^ length fp
      in if ip = [] \<and> fp = [] then None
         else if esgn < 0 then Some (m * scale 10 (- digitsValue 10 ed))
         else Some (m * scale 10 (digitsValue 10 ed)))"

definition parseFloat :: "string \<Rightarrow> real option" where
  "parseFloat inString =
     (let (sgn, s1) = readSign (dropWhile isWhiteSpace inString) in
      case decimalValue s1 of None \<Rightarrow> None | Some u \<Rightarrow> toDouble (sgn * u))"

text \<open>
  A number as text (the conversion that \<^verbatim>\<open>+\<close> applies to a number joined to a
  string). The digits are the fewest, \<open>k\<close> of them, for which some whole \<open>s\<close> of
  \<open>k\<close> digits and some \<open>n\<close> give \<open>s\<close> times 10 to the \<open>n - k\<close> a value whose nearest
  double is the number; of two such \<open>s\<close> the one nearer to the number is taken.
  \<open>shortestDigits\<close> tries \<open>k\<close> = 1, 2, ... on the two \<open>k\<close>-digit decimals next to the
  number; 17 digits always name a double. Trailing zeros of \<open>s\<close> (when \<open>s\<close> is a power
  of ten) are not digits. The digits are then laid out by the place \<open>n\<close> of the point:
  as a whole number, with a point inside, after \<^verbatim>\<open>0.\<close> and zeros, or with an exponent.
\<close>

definition digitChar :: "int \<Rightarrow> char" where
  "digitChar d = char_of (48 + d)"

function decimalDigits :: "int \<Rightarrow> string" where
  "decimalDigits n =
     (if n < 10 then [digitChar n] else decimalDigits (n div 10) @ [digitChar (n mod 10)])"
  by pat_completeness auto

termination
  by (relation "measure nat") simp_all

declare decimalDigits.simps [simp del]

definition decimal :: "int \<Rightarrow> int \<Rightarrow> real" where
  "decimal s e = of_int s * scale 10 e"

fun shortestDigits :: "real \<Rightarrow> int \<Rightarrow> nat \<Rightarrow> nat \<Rightarrow> int \<times> int" where
  "shortestDigits m n k 0 = (roundEven (m * scale 10 (int k - n)), n - int k)"
| "shortestDigits m n k (Suc fuel) =
     (let lo = \<lfloor>m * scale 10 (int k - n)\<rfloor>;
          e = n - int k;
          okLo = (toDouble (decimal lo e) = Some m);
          okHi = (toDouble (decimal (lo + 1) e) = Some m)
      in if okLo \<and> okHi then (roundEven (m * scale 10 (int k - n)), e)
         else if okLo then (lo, e)
         else if okHi then (lo + 1, e)
         else shortestDigits m n (Suc k) fuel)"

definition formatDigits :: "string \<Rightarrow> int \<Rightarrow> string" where
  "formatDigits ds n =
     (let k = int (length ds) in
      if k \<le> n \<and> n \<le> 21 then ds @ replicate (nat (n - k)) CHR ''0''
      else if 0 < n \<and> n \<le> 21 then take (nat n) ds @ ''.'' @ drop (nat n) ds
      else if - 6 < n \<and> n \<le> 0 then ''0.'' @ replicate (nat (- n)) CHR ''0'' @ ds
      else
        (let ex = (if n - 1 < 0 then ''-'' else ''+'') @ decimalDigits \<bar>n - 1\<bar>
         in if k = 1 then ds @ ''e'' @ ex
            else take 1 ds @ ''.'' @ drop 1 ds @ ''e'' @ ex))"

definition numToString :: "real \<Rightarrow> string" where
  "numToString x =
     (case toDouble x of
        None \<Rightarrow> (if x < 0 then ''-Infinity'' else ''Infinity'')
      | Some v \<Rightarrow>
          if v = 0 then ''0''
          else
            (let m = \<bar>v\<bar>;
                 (s, e) = shortestDigits m (ilog 10 m + 1) 1 16;
                 ds = decimalDigits s;
                 ts = rev (dropWhile (\<lambda>c. c = CHR ''0'') (rev ds))
             in (if v < 0 then ''-'' else []) @ formatDigits ts (int (length ds) + e)))"

text \<open>
  \<^verbatim>\<open>String.prototype.split\<close> at a one-character separator. The result always has
  a first piece, to which a character that is not the separator is added.
\<close>

fun String_split :: "char \<Rightarrow> string \<Rightarrow> string list" where
  "String_split sep [] = [[]]"
| "String_split sep (c # cs) =
     (if c = sep then [] # String_split sep cs
      else (case String_split sep cs of
              [] \<Rightarrow> [[c]]
            | x # xs \<Rightarrow> (c # x) # xs))"



section \<open>Image serialization\<close>

text \<open>
  \<^verbatim>\<open>MinimalView.prototype.imageToString\<close>: the scan is row-major, \<^verbatim>\<open>yLoop\<close>
  outside. Reading a channel of an absent pixel throws.
\<close>

definition pixelGroup :: "color \<Rightarrow> string" where
  "pixelGroup oColor =
     numToString (r oColor) @ '','' @ numToString (g oColor) @ '',''
       @ numToString (b oColor) @ '','' @ numToString (a oColor)"

definition imageToString_at :: "world \<Rightarrow> nat \<Rightarrow> int \<Rightarrow> int \<Rightarrow> string \<Rightarrow> error + string" where
  "imageToString_at w this yLoop xLoop imageString =
     (case getColor w this xLoop yLoop of
        None \<Rightarrow> Inl TypeError
      | Some p \<Rightarrow> Inr (imageString @ pixelGroup (heap w p) @ '';''))"

definition MinimalView_imageToString :: "world \<Rightarrow> nat \<Rightarrow> error + string" where
  "MinimalView_imageToString w this =
     forE [0..getHeight w this - 1]
       (\<lambda>yLoop. forE [0..getWidth w this - 1] (imageToString_at w this yLoop))
       ([] @ numToString (of_int (getWidth w this)) @ '';''
           @ numToString (of_int (getHeight w this)) @ '';'')"

text \<open>The remainder operator on whole numbers: the sign is the dividend's.\<close>

definition int_rem :: "int \<Rightarrow> int \<Rightarrow> int" where
  "int_rem x y = sgn x * (\<bar>x\<bar> mod \<bar>y\<bar>)"

text \<open>
  The body of the loading loop of \<^verbatim>\<open>MinimalView.prototype.imageFromString\<close>; the state
  is \<^verbatim>\<open>xPos\<close>, \<^verbatim>\<open>yPos\<close> and the store. A channel that parses to \<^verbatim>\<open>NaN\<close> or
  to an infinity has no counterpart among the reals: the model reports \<open>NotANumber\<close>
  there.
\<close>

definition imageFromString_at ::
  "nat \<Rightarrow> string list \<Rightarrow> int \<Rightarrow> int \<Rightarrow> int \<times> int \<times> world \<Rightarrow> error + int \<times> int \<times> world" where
  "imageFromString_at this imageData imageWidth loop st =
     (case st of (xPos, yPos, w) \<Rightarrow>
        (let oColorString = imageData ! nat (loop + 2);
             oColorArray = String_split CHR '','' oColorString
         in if 4 = length oColorArray \<and> ''null'' \<noteq> oColorArray ! 0 then
              (case (parseInt (oColorArray ! 0), parseInt (oColorArray ! 1),
                     parseInt (oColorArray ! 2), parseFloat (oColorArray ! 3)) of
                 (Some cr, Some cg, Some cb, Some ca) \<Rightarrow>
                   (let (p, w1) = alloc w (Color cr cg cb (Some ca) None);
                        w2 = setColor w1 this xPos yPos (Some p);
                        xPos1 = xPos + 1
                    in if 0 = int_rem xPos1 imageWidth then Inr (0, yPos + 1, w2)
                       else Inr (xPos1, yPos, w2))
               | _ \<Rightarrow> Inl NotANumber)
            else Inr st))"

definition MinimalView_imageFromString :: "world \<Rightarrow> nat \<Rightarrow> string \<Rightarrow> error + world" where
  "MinimalView_imageFromString w this inString =
     (if inString = [] then Inr w
      else
        (let imageData = String_split CHR '';'' inString in
         if length imageData < 3 then Inr w
         else
           (case (parseInt (imageData ! 0), parseInt (imageData ! 1)) of
              (Some imageWidth, Some imageHeight) \<Rightarrow>
                if imageWidth = 0 then Inr w
                else if imageHeight = 0 then Inr w
                else if imageWidth \<noteq> of_int (getWidth w this) then Inr w
                else if imageHeight \<noteq> of_int (getHeight w this) then Inr w
                else if real (length imageData) \<noteq> imageWidth * imageHeight + 3 then Inr w
                else
                  (case forE [0..\<lfloor>imageWidth * imageHeight\<rfloor> - 1]
                          (imageFromString_at this imageData \<lfloor>imageWidth\<rfloor>) (0, 0, w) of
                     Inl e \<Rightarrow> Inl e
                   | Inr (xPos, yPos, w') \<Rightarrow> Inr w')
            | _ \<Rightarrow> Inr w)))"

section \<open>Histograms\<close>

text \<open>
  A histogram array holds numbers; \<open>None\<close> is a cell that holds no number
  (\<^verbatim>\<open>undefined\<close> or \<^verbatim>\<open>NaN\<close>). An array is indexed by a number: a write at a whole
  index past the end lengthens the array, and a key that is not a whole non-negative
  number names no cell.
\<close>

record HistogramResult =
  red :: "real option list"
  green :: "real option list"
  blue :: "real option list"
  alpha :: "real option list"












section \<open>Example surfaces\<close>

text \<open>
  Small stores for running the engine. \<open>clear\<close> is the color a new
  \<^verbatim>\<open>MinimalView\<close> holds at every pixel.
\<close>

definition clear :: color where
  "clear = Color 0 0 0 (Some 0) None"

definition surface :: "int \<Rightarrow> int \<Rightarrow> nat option list list \<Rightarrow> view" where
  "surface inWidth inHeight rows =
     \<lparr> width = inWidth, height = inHeight, colors = rows, backgroundColor = None \<rparr>"

text \<open>Surface 0 is one pixel; surface 1 is a new one-pixel surface; surface 2 is one opaque pixel.\<close>

definition point_world :: world where
  "point_world =
     \<lparr> heap = (\<lambda>p. if p = 0 then Color 10 20 30 (Some 1) None
                   else if p = 2 then Color 200 100 0 (Some 1) None
                   else clear),
       fresh = 3,
       views = (\<lambda>v. if v = 0 then surface 1 1 [[Some 0]]
                     else if v = 1 then surface 1 1 [[Some 1]]
                     else surface 1 1 [[Some 2]]) \<rparr>"

text \<open>
  Surface 0 is a row of two pixels, surface 1 a new surface of the same size; address 4
  holds a red fill color.
\<close>

definition row_world :: world where
  "row_world =
     \<lparr> heap = (\<lambda>p. if p = 0 then Color 10 20 30 (Some 1) None
                   else if p = 1 then Color 40 50 60 (Some 1) None
                   else if p = 4 then Color 255 0 0 (Some 1) None
                   else clear),
       fresh = 5,
       views = (\<lambda>v. if v = 0 then surface 2 1 [[Some 0, Some 1]]
                     else surface 2 1 [[Some 2, Some 3]]) \<rparr>"

text \<open>
  Surface 0 is a 3\<times>3 block of white; surface 1 is a new 3\<times>3 surface. Addresses 18
  and 19 hold white (the erosion and the neighbor color), address 20 holds black (the
  replacement color).
\<close>

definition block_world :: world where
  "block_world =
     \<lparr> heap = (\<lambda>p. if p < 9 \<or> p = 18 \<or> p = 19 then Color 255 255 255 (Some 1) None
                   else if p = 20 then Color 0 0 0 (Some 1) None
                   else clear),
       fresh = 21,
       views = (\<lambda>v. if v = 0
                     then surface 3 3 [[Some 0, Some 1, Some 2], [Some 3, Some 4, Some 5],
                                       [Some 6, Some 7, Some 8]]
                     else surface 3 3 [[Some 9, Some 10, Some 11], [Some 12, Some 13, Some 14],
                                       [Some 15, Some 16, Some 17]]) \<rparr>"

text \<open>Surface 0 is 2\<times>2 with four different opaque colors; surface 1 is a new 2\<times>2 surface.\<close>

definition square_world :: world where
  "square_world =
     \<lparr> heap = (\<lambda>p. if p = 0 then Color 10 20 30 (Some 1) None
                   else if p = 1 then Color 40 50 60 (Some 1) None
                   else if p = 2 then Color 70 80 90 (Some 1) None
                   else if p = 3 then Color 100 110 120 (Some 1) None
                   else clear),
       fresh = 8,
       views = (\<lambda>v. if v = 0 then surface 2 2 [[Some 0, Some 1], [Some 2, Some 3]]
                     else surface 2 2 [[Some 4, Some 5], [Some 6, Some 7]]) \<rparr>"

text \<open>
  Surface 0 is 3\<times>3, opaque black around a gray center; surface 1 is a new 3\<times>3
  surface.
\<close>

definition edge_world :: world where
  "edge_world =
     \<lparr> heap = (\<lambda>p. if p = 4 then Color 128 128 128 (Some 1) None
                   else if p < 9 then Color 0 0 0 (Some 1) None
                   else clear),
       fresh = 18,
       views = (\<lambda>v. if v = 0
                     then surface 3 3 [[Some 0, Some 1, Some 2], [Some 3, Some 4, Some 5],
                                       [Some 6, Some 7, Some 8]]
                     else surface 3 3 [[Some 9, Some 10, Some 11], [Some 12, Some 13, Some 14],
                                       [Some 15, Some 16, Some 17]]) \<rparr>"

text \<open>
  Surface 0 is 4\<times>4, opaque black but for a gray pixel at (2, 2); surface 1 is a new
  3\<times>3 surface.
\<close>

definition wide_world :: world where
  "wide_world =
     \<lparr> heap = (\<lambda>p. if p = 10 then Color 128 128 128 (Some 1) None
                   else if p < 16 then Color 0 0 0 (Some 1) None
                   else clear),
       fresh = 25,
       views = (\<lambda>v. if v = 0
                     then surface 4 4 [[Some 0, Some 1, Some 2, Some 3],
                                       [Some 4, Some 5, Some 6, Some 7],
                                       [Some 8, Some 9, Some 10, Some 11],
                                       [Some 12, Some 13, Some 14, Some 15]]
                     else surface 3 3 [[Some 16, Some 17, Some 18], [Some 19, Some 20, Some 21],
                                       [Some 22, Some 23, Some 24]]) \<rparr>"

text \<open>What a run that may throw leaves at a pixel.\<close>

definition pixel_after :: "error + world \<Rightarrow> nat \<Rightarrow> int \<Rightarrow> int \<Rightarrow> error + color option" where
  "pixel_after res v x y = (case res of Inl e \<Rightarrow> Inl e | Inr w \<Rightarrow> Inr (pixel w v x y))"

section \<open>Counting pixels\<close>









section \<open>Surfaces that serialize\<close>

text \<open>
  A coordinate that names a cell of the surface's array; a whole number of the engine
  below 1e21 in size; a color whose r, g, b are such numbers and whose alpha is a finite
  number of the engine; and the coordinates of a width by height surface in row-major
  order.
\<close>

definition inside :: "world \<Rightarrow> nat \<Rightarrow> int \<Rightarrow> int \<Rightarrow> bool" where
  "inside w v x y =
     (0 \<le> x \<and> 0 \<le> y \<and> y < int (length (colors (views w v)))
      \<and> x < int (length (colors (views w v) ! nat y)))"

definition wholeNumber :: "real \<Rightarrow> bool" where
  "wholeNumber x = (isDouble x \<and> x = of_int \<lfloor>x\<rfloor> \<and> \<bar>x\<bar> < 10 ^ 21)"

definition serializable :: "color \<Rightarrow> bool" where
  "serializable c =
     (wholeNumber (r c) \<and> wholeNumber (g c) \<and> wholeNumber (b c) \<and> isDouble (a c))"

definition rowMajor :: "int \<Rightarrow> int \<Rightarrow> (int \<times> int) list" where
  "rowMajor inWidth inHeight =
     concat (map (\<lambda>y. map (\<lambda>x. (x, y)) [0..inWidth - 1]) [0..inHeight - 1])"

text \<open>A string of decimal digits, and a string free of both separators.\<close>

definition digitString :: "string \<Rightarrow> bool" where
  "digitString s = (\<forall>c\<in>set s. \<exists>d. 0 \<le> d \<and> d < 10 \<and> c = digitChar d)"

definition plainText :: "string \<Rightarrow> bool" where
  "plainText s = (\<forall>c\<in>set s. c \<noteq> CHR '';'' \<and> c \<noteq> CHR '','')"

text \<open>
  Surface 0 is a row of two translucent pixels, the alpha of the second being the
  double nearest to 128/255; surface 1 is a new surface of the same size.
\<close>

definition glass_world :: world where
  "glass_world =
     \<lparr> heap = (\<lambda>p. if p = 0 then Color 10 20 30 (Some 0.5) None
                   else if p = 1
                     then Color 255 0 128 (Some (282578800148737 / 562949953421312)) None
                   else clear),
       fresh = 4,
       views = (\<lambda>v. if v = 0 then surface 2 1 [[Some 0, Some 1]]
                     else surface 2 1 [[Some 2, Some 3]]) \<rparr>"

text \<open>
  Surface 0 is one opaque pixel whose red channel is 1e21; surface 1 is a new surface of
  the same size.
\<close>

definition huge_world :: world where
  "huge_world =
     \<lparr> heap = (\<lambda>p. if p = 0 then Color (10 ^ 21) 0 0 (Some 1) None else clear),
       fresh = 2,
       views = (\<lambda>v. if v = 0 then surface 1 1 [[Some 0]] else surface 1 1 [[Some 1]]) \<rparr>"

section \<open>The source surface under the point filters\<close>

text \<open>
  C1. A point filter called with a source and a different destination should leave every
  source pixel as it was. On \<^verbatim>\<open>MinimalView\<close> surfaces \<^verbatim>\<open>grayscale\<close>, \<^verbatim>\<open>invert\<close>
  and \<^verbatim>\<open>blend\<close> change the object that the source pixel holds: the source pixel
  (10, 20, 30) of surface 0 reads (18, 18, 18) after \<^verbatim>\<open>grayscale\<close>, (245, 235, 225) after
  \<^verbatim>\<open>invert\<close> and (200, 100, 0) after a CROSS \<^verbatim>\<open>blend\<close> with surface 2.
\<close>

theorem point_filters_change_source:
  "pixel point_world 0 0 0 = Some (Color 10 20 30 (Some 1) None)
   \<and> pixel (Filters_grayscale point_world 0 1) 0 0 0 = Some (Color 18 18 18 (Some 1) None)
   \<and> pixel (Filters_invert point_world 0 1) 0 0 0 = Some (Color 245 235 225 (Some 1) None)
   \<and> pixel (Filters_blend point_world 0 2 1 CROSS) 0 0 0 = Some (Color 200 100 0 (Some 1) None)"
  by code_simp

section \<open>Translation\<close>

text \<open>
  C2. \<^verbatim>\<open>translate\<close> should fill the destination with the fill color before it copies
  the shifted pixels. Moving the two-pixel row by one to the right with the red fill
  color: destination pixel (1, 0) receives source pixel (0, 0), and destination pixel
  (0, 0), which no shifted pixel covers, still holds the clear color it had, not red.
\<close>

theorem translate_leaves_uncovered_pixel:
  "pixel (Filters_translate row_world 0 1 1 0 (Some 4)) 1 1 0 = Some (Color 10 20 30 (Some 1) None)
   \<and> pixel (Filters_translate row_world 0 1 1 0 (Some 4)) 1 0 0 = Some clear
   \<and> pixel row_world 1 0 0 = Some clear
   \<and> heap row_world 4 = Color 255 0 0 (Some 1) None
   \<and> clear \<noteq> Color 255 0 0 (Some 1) None"
  by code_simp

section \<open>Erosion of a uniform block\<close>

text \<open>
  C4. On the 3\<times>3 white block, with white as erosion and neighbor color, tolerance 0.01
  and black as replacement, the interior pixel (1, 1) should turn black at threshold 7.
  The count skips row 0 and reaches 6, so at threshold 7 the destination pixel is the
  white source pixel; it turns black at threshold 5.
\<close>

theorem erosion_threshold_7_keeps_pixel:
  "pixel_after (Filters_erosion block_world 0 1 18 7 0.01 19 20) 1 1 1
     = Inr (Some (Color 255 255 255 (Some 1) None))
   \<and> pixel_after (Filters_erosion block_world 0 1 18 5 0.01 19 20) 1 1 1
     = Inr (Some (Color 0 0 0 (Some 1) None))"
  by code_simp

section \<open>The identity kernel\<close>

text \<open>
  C5. \<^verbatim>\<open>maskFilter\<close> with the kernel [[1]], factor 1 and bias 0 should reproduce the
  source. On the 2\<times>2 surface only pixel (1, 1) is reproduced: in column 0 and in row 0
  the sample coordinate is the width or the height, the sample is absent, and the
  destination receives (0, 0, 0) with alpha 0.
\<close>

theorem maskFilter_identity_kernel_edge:
  "pixel_after (Filters_maskFilter square_world 0 1 [[1]] 1.0 0.0) 1 0 0 = Inr (Some clear)
   \<and> pixel_after (Filters_maskFilter square_world 0 1 [[1]] 1.0 0.0) 1 1 0 = Inr (Some clear)
   \<and> pixel_after (Filters_maskFilter square_world 0 1 [[1]] 1.0 0.0) 1 0 1 = Inr (Some clear)
   \<and> pixel_after (Filters_maskFilter square_world 0 1 [[1]] 1.0 0.0) 1 1 1
       = Inr (Some (Color 100 110 120 (Some 1) None))
   \<and> pixel square_world 0 0 0 = Some (Color 10 20 30 (Some 1) None)"
  by code_simp

section \<open>Loading a payload with a skipped group\<close>

text \<open>
  C8. A group whose first field is \<^verbatim>\<open>null\<close> should leave its own pixel alone, and the
  other groups should land on their own row-major coordinates. The payload
  \<^verbatim>\<open>2;1;null,0,0,0;1,2,3,1;\<close> is accepted by the two-pixel surface 1. Its second group
  belongs to pixel (1, 0) and is written to pixel (0, 0); pixel (1, 0) keeps the clear
  color.
\<close>

theorem imageFromString_null_group_shifts:
  "pixel_after (MinimalView_imageFromString row_world 1 ''2;1;null,0,0,0;1,2,3,1;'') 1 0 0
     = Inr (Some (Color 1 2 3 (Some 1) None))
   \<and> pixel_after (MinimalView_imageFromString row_world 1 ''2;1;null,0,0,0;1,2,3,1;'') 1 1 0
     = Inr (Some clear)"
  by code_simp

section \<open>Rounding and conversion\<close>

lemma Math_round_of_int [simp]: "Math_round (of_int n) = of_int n"
  by (simp add: Math_round_def)

lemma Math_round_Ints: "x \<in> \<int> \<Longrightarrow> Math_round x = x"
  by (auto simp: Ints_def)

lemma Math_round_near: "\<bar>Math_round x - x\<bar> \<le> 1 / 2"
  unfolding Math_round_def by linarith

section \<open>Blending under CROSS\<close>

lemma blend_CROSS_alpha_0:
  assumes "normalized d = False"
    and "r d \<in> \<int>" "g d \<in> \<int>" "b d \<in> \<int>"
    and "0 \<le> r d" "r d \<le> 255" "0 \<le> g d" "g d \<le> 255" "0 \<le> b d" "b d \<le> 255"
    and "0 \<le> a d" "a d \<le> 1"
    and "a s = 0"
  shows "Color_blend d s CROSS = d"
  using assms
  by (simp add: Color_blend_def Color_getNormalizedColor_def Let_def
      xlate255ColorToNormalizedColor_def xlateNormalizedColorTo255Color_def Math_round_Ints)

lemma blend_CROSS_alpha_1:
  assumes "a s = 1"
  shows "r (Color_blend d s CROSS) = r (Color_get255Color (Color_getNormalizedColor s))"
    and "g (Color_blend d s CROSS) = g (Color_get255Color (Color_getNormalizedColor s))"
    and "b (Color_blend d s CROSS) = b (Color_get255Color (Color_getNormalizedColor s))"
    and "a (Color_blend d s CROSS) = a s"
  using assms
  by (simp_all add: Color_blend_def Color_getNormalizedColor_def Color_get255Color_def Let_def
      xlate255ColorToNormalizedColor_def xlateNormalizedColorTo255Color_def)

lemma convert_255_in_range:
  assumes "0 \<le> x" "x \<le> 255"
  shows "xlateNormalizedColorTo255Color (xlate255ColorToNormalizedColor x) = Math_round x"
  using assms
  by (simp add: xlate255ColorToNormalizedColor_def xlateNormalizedColorTo255Color_def)

text \<open>
  C9. Let the destination be a 255-mode color with whole channels in [0, 255] and alpha in
  [0, 1]. Blending under CROSS with a source of alpha 0 leaves the destination as it is.
  With a source of alpha 1 the destination takes the alpha of the source and, in each of
  r, g and b, the channel of the source as the conversion to normalized form and back to
  255 gives it; that is the channel of the source within rounding (at most one half away)
  when the source is a 255-mode color with the channel in [0, 255], and the channel
  itself when it is whole besides.
\<close>

theorem blend_CROSS_alpha_0_and_1:
  assumes "normalized d = False"
    and "r d \<in> \<int>" "g d \<in> \<int>" "b d \<in> \<int>"
    and "0 \<le> r d" "r d \<le> 255" "0 \<le> g d" "g d \<le> 255" "0 \<le> b d" "b d \<le> 255"
    and "0 \<le> a d" "a d \<le> 1"
  shows "(a s = 0 \<longrightarrow> Color_blend d s CROSS = d)
       \<and> (a s = 1 \<longrightarrow>
            r (Color_blend d s CROSS) = r (Color_get255Color (Color_getNormalizedColor s))
          \<and> g (Color_blend d s CROSS) = g (Color_get255Color (Color_getNormalizedColor s))
          \<and> b (Color_blend d s CROSS) = b (Color_get255Color (Color_getNormalizedColor s))
          \<and> a (Color_blend d s CROSS) = a s)
       \<and> (a s = 1 \<and> normalized s = False \<longrightarrow>
            (0 \<le> r s \<and> r s \<le> 255 \<longrightarrow>
               \<bar>r (Color_blend d s CROSS) - r s\<bar> \<le> 1 / 2
               \<and> (r s \<in> \<int> \<longrightarrow> r (Color_blend d s CROSS) = r s))
          \<and> (0 \<le> g s \<and> g s \<le> 255 \<longrightarrow>
               \<bar>g (Color_blend d s CROSS) - g s\<bar> \<le> 1 / 2
               \<and> (g s \<in> \<int> \<longrightarrow> g (Color_blend d s CROSS) = g s))
          \<and> (0 \<le> b s \<and> b s \<le> 255 \<longrightarrow>
               \<bar>b (Color_blend d s CROSS) - b s\<bar> \<le> 1 / 2
               \<and> (b s \<in> \<int> \<longrightarrow> b (Color_blend d s CROSS) = b s)))"
proof (intro conjI impI)
  assume "a s = 0"
  with assms show "Color_blend d s CROSS = d" by (rule blend_CROSS_alpha_0)
next
  assume s1: "a s = 1"
  show "r (Color_blend d s CROSS) = r (Color_get255Color (Color_getNormalizedColor s))"
    "g (Color_blend d s CROSS) = g (Color_get255Color (Color_getNormalizedColor s))"
    "b (Color_blend d s CROSS) = b (Color_get255Color (Color_getNormalizedColor s))"
    "a (Color_blend d s CROSS) = a s"
    by (rule blend_CROSS_alpha_1 [OF s1])+
next
  assume s: "a s = 1 \<and> normalized s = False" and rng: "0 \<le> r s \<and> r s \<le> 255"
  have "r (Color_blend d s CROSS) = Math_round (r s)"
    using s rng blend_CROSS_alpha_1(1) [of s d] convert_255_in_range [of "r s"]
    by (simp add: Color_get255Color_def Color_getNormalizedColor_def)
  then show "\<bar>r (Color_blend d s CROSS) - r s\<bar> \<le> 1 / 2"
    and "r s \<in> \<int> \<Longrightarrow> r (Color_blend d s CROSS) = r s"
    using Math_round_near [of "r s"] by (simp_all add: Math_round_Ints)
next
  assume s: "a s = 1 \<and> normalized s = False" and rng: "0 \<le> g s \<and> g s \<le> 255"
  have "g (Color_blend d s CROSS) = Math_round (g s)"
    using s rng blend_CROSS_alpha_1(2) [of s d] convert_255_in_range [of "g s"]
    by (simp add: Color_get255Color_def Color_getNormalizedColor_def)
  then show "\<bar>g (Color_blend d s CROSS) - g s\<bar> \<le> 1 / 2"
    and "g s \<in> \<int> \<Longrightarrow> g (Color_blend d s CROSS) = g s"
    using Math_round_near [of "g s"] by (simp_all add: Math_round_Ints)
next
  assume s: "a s = 1 \<and> normalized s = False" and rng: "0 \<le> b s \<and> b s \<le> 255"
  have "b (Color_blend d s CROSS) = Math_round (b s)"
    using s rng blend_CROSS_alpha_1(3) [of s d] convert_255_in_range [of "b s"]
    by (simp add: Color_get255Color_def Color_getNormalizedColor_def)
  then show "\<bar>b (Color_blend d s CROSS) - b s\<bar> \<le> 1 / 2"
    and "b s \<in> \<int> \<Longrightarrow> b (Color_blend d s CROSS) = b s"
    using Math_round_near [of "b s"] by (simp_all add: Math_round_Ints)
qed

theorem blend_CROSS_alpha_0_and_1_witness:
  "Color_blend (Color 10 20 30 (Some 0.5) None) (Color 200 100 0 (Some 0) None) CROSS
     = Color 10 20 30 (Some 0.5) None
   \<and> r (Color_blend (Color 10 20 30 (Some 0.5) None) (Color 200 100 0 (Some 1) None) CROSS) = 200
   \<and> g (Color_blend (Color 10 20 30 (Some 0.5) None) (Color 200 100 0 (Some 1) None) CROSS) = 100
   \<and> b (Color_blend (Color 10 20 30 (Some 0.5) None) (Color 200 100 0 (Some 1) None) CROSS) = 0
   \<and> a (Color_blend (Color 10 20 30 (Some 0.5) None) (Color 200 100 0 (Some 1) None) CROSS) = 1"
  using blend_CROSS_alpha_0_and_1
          [of "Color 10 20 30 (Some 0.5) None" "Color 200 100 0 (Some 0) None"]
        blend_CROSS_alpha_0_and_1
          [of "Color 10 20 30 (Some 0.5) None" "Color 200 100 0 (Some 1) None"]
  by (simp add: Color_def)

section \<open>Interpolation at a grid point\<close>

text \<open>
  C6. Let (x, y) be whole coordinates inside the surface, where the surface holds a
  255-mode color with whole r, g, b in [0, 255] and alpha in [0, 1]. Then
  \<^verbatim>\<open>bilinearInterpolatePixel\<close> returns a new color object with exactly the r, g, b and
  alpha of that pixel (255-mode, not transparent), and changes no stored object.
\<close>

theorem bilinearInterpolatePixel_integer_coordinates:
  assumes px: "getColor w v x y = Some p"
    and x: "0 \<le> x" "x < getWidth w v" and y: "0 \<le> y" "y < getHeight w v"
    and mode: "normalized (heap w p) = False"
    and ints: "r (heap w p) \<in> \<int>" "g (heap w p) \<in> \<int>" "b (heap w p) \<in> \<int>"
    and rng: "0 \<le> r (heap w p)" "r (heap w p) \<le> 255" "0 \<le> g (heap w p)"
      "g (heap w p) \<le> 255" "0 \<le> b (heap w p)" "b (heap w p) \<le> 255"
      "0 \<le> a (heap w p)" "a (heap w p) \<le> 1"
  shows "Filters_bilinearInterpolatePixel w v (of_int x) (of_int y) =
           (Some (fresh w),
            w\<lparr> heap := (heap w)
                 (fresh w := \<lparr> r = r (heap w p), g = g (heap w p), b = b (heap w p),
                              a = a (heap w p), transparent = False, normalized = False \<rparr>),
               fresh := Suc (fresh w) \<rparr>)"
proof -
  let ?c = "heap w p"
  let ?n = "Color_getNormalizedColor ?c"
  have n: "?n = \<lparr> r = r ?c / 255, g = g ?c / 255, b = b ?c / 255, a = a ?c,
                  transparent = False, normalized = True \<rparr>"
    using mode rng by (simp add: Color_getNormalizedColor_def xlate255ColorToNormalizedColor_def)
  have mix: "Color_addColor (Color_multiplyNumber ?n 1) (Color_multiplyNumber ?n 0) = ?n"
    by (simp add: Color_addColor_def Color_multiplyNumber_def n)
  have cl: "Color_clamp ?n = ?n"
    using rng by (simp add: Color_clamp_def n)
  have conv: "Color_get255Color ?n =
      \<lparr> r = r ?c, g = g ?c, b = b ?c, a = a ?c, transparent = False, normalized = False \<rparr>"
    using mode ints rng
    by (simp add: n Color_get255Color_def xlateNormalizedColorTo255Color_def Math_round_Ints)
  show ?thesis
    using px x y
    by (simp add: Filters_bilinearInterpolatePixel_def Let_def mix cl conv alloc_def)
qed

theorem bilinearInterpolatePixel_integer_coordinates_witness:
  "fst (Filters_bilinearInterpolatePixel square_world 0 (of_int 1) (of_int 1)) = Some 8
   \<and> heap (snd (Filters_bilinearInterpolatePixel square_world 0 (of_int 1) (of_int 1))) 8
       = Color 100 110 120 (Some 1) None
   \<and> pixel square_world 0 1 1 = Some (Color 100 110 120 (Some 1) None)"
  using bilinearInterpolatePixel_integer_coordinates [of square_world 0 1 1 3]
  by (simp add: square_world_def surface_def getColor_def getWidth_def getHeight_def
      Color_def pixel_def)

section \<open>Frame lemmas of the store\<close>

lemma forE_invariant:
  assumes "forE xs body s = Inr s'"
    and "P s"
    and "\<And>i t t'. i \<in> set xs \<Longrightarrow> P t \<Longrightarrow> body i t = Inr t' \<Longrightarrow> P t'"
  shows "P s'"
  using assms
proof (induction xs arbitrary: s)
  case Nil
  then show ?case by simp
next
  case (Cons i xs)
  from Cons.prems(1) obtain t where t: "body i s = Inr t" and rest: "forE xs body t = Inr s'"
    by (auto split: sum.splits)
  have "P t" using Cons.prems(2,3) t by auto
  then show ?case using Cons.IH [OF rest] Cons.prems(3) by auto
qed

lemma heap_setColor [simp]: "heap (setColor w v x y c) = heap w"
  by (simp add: setColor_def Let_def split: option.splits)

lemma fresh_setColor [simp]: "fresh (setColor w v x y c) = fresh w"
  by (simp add: setColor_def Let_def split: option.splits)

lemma getWidth_setColor [simp]: "getWidth (setColor w v x y c) u = getWidth w u"
  by (simp add: setColor_def getWidth_def Let_def split: option.splits)

lemma getHeight_setColor [simp]: "getHeight (setColor w v x y c) u = getHeight w u"
  by (simp add: setColor_def getHeight_def Let_def split: option.splits)

lemma getColor_setColor_other:
  assumes "u \<noteq> v \<or> x' \<noteq> x \<or> y' \<noteq> y"
  shows "getColor (setColor w v x y c) u x' y' = getColor w u x' y'"
proof (cases c)
  case None
  then show ?thesis by (simp add: setColor_def)
next
  case (Some p)
  show ?thesis
  proof (cases "u = v")
    case False
    then show ?thesis by (simp add: setColor_def getColor_def Let_def Some)
  next
    case True
    with assms have ne: "x' \<noteq> x \<or> y' \<noteq> y" by simp
    show ?thesis
    proof (cases "0 \<le> x \<and> 0 \<le> y \<and> 0 \<le> x' \<and> 0 \<le> y'")
      case False
      then show ?thesis
        by (auto simp: setColor_def getColor_def Let_def Some True)
    next
      case nonneg: True
      then have "nat x' \<noteq> nat x \<or> nat y' \<noteq> nat y" using ne by auto
      then show ?thesis
        by (auto simp: setColor_def getColor_def Let_def Some True nth_list_update)
    qed
  qed
qed

lemma getColor_views: "views w1 = views w \<Longrightarrow> getColor w1 v x y = getColor w v x y"
  by (simp add: getColor_def)

lemma alloc_eq:
  assumes "alloc w c = (q, w1)"
  shows "q = fresh w" "heap w1 = (heap w)(fresh w := c)" "fresh w1 = Suc (fresh w)"
    "views w1 = views w"
  using assms by (auto simp: alloc_def)

section \<open>The border under edge detection\<close>

lemma detectEdges_at_frame:
  assumes "detectEdges_at src dst i1 i2 w = Inr w'"
  shows "(x \<noteq> i1 \<or> y \<noteq> i2 \<longrightarrow> getColor w' dst x y = getColor w dst x y)
       \<and> (\<forall>p<fresh w. heap w' p = heap w p) \<and> fresh w \<le> fresh w'"
proof (cases "getColor w src i1 i2")
  case None
  with assms show ?thesis by (simp add: detectEdges_at_def)
next
  case (Some p0)
  show ?thesis
  proof (cases "w' = w")
    case True
    then show ?thesis by simp
  next
    case False
    with assms Some obtain c q w1 where al: "alloc w c = (q, w1)"
      and w': "w' = setColor w1 dst i1 i2 (Some q)"
      by (auto simp: detectEdges_at_def Let_def split: prod.splits if_splits)
    note al_facts = alloc_eq [OF al]
    have "x \<noteq> i1 \<or> y \<noteq> i2 \<longrightarrow> getColor w' dst x y = getColor w dst x y"
      by (auto simp: w' getColor_setColor_other getColor_views [OF al_facts(4)])
    moreover have "\<forall>p<fresh w. heap w' p = heap w p"
      by (simp add: w' al_facts)
    moreover have "fresh w \<le> fresh w'"
      by (simp add: w' al_facts)
    ultimately show ?thesis by blast
  qed
qed

text \<open>
  C10, as the code has it. \<^verbatim>\<open>detectEdges\<close> scans the columns 1 to width - 2 and
  the rows 1 to height - 2, width and height being those of the source. For every source
  and destination surface, a destination pixel with x \<le> 0, y \<le> 0, x \<ge> width - 1 or
  y \<ge> height - 1 of the source holds after the call the object it held before, and no
  object that existed before the call has changed. When the destination has the width
  and height of the source, these are the pixels of its outermost border (and the
  coordinates beyond it).
\<close>

theorem detectEdges_border_untouched:
  assumes run: "Filters_detectEdges w src dst = Inr w'"
    and border: "x \<le> 0 \<or> y \<le> 0 \<or> getWidth w src - 1 \<le> x \<or> getHeight w src - 1 \<le> y"
  shows "getColor w' dst x y = getColor w dst x y \<and> (\<forall>p<fresh w. heap w' p = heap w p)"
proof -
  let ?P = "\<lambda>t. getColor t dst x y = getColor w dst x y
                 \<and> (\<forall>p<fresh w. heap t p = heap w p) \<and> fresh w \<le> fresh t"
  have inner: "?P t'" if i1: "i1 \<in> set [1..getWidth w src - 2]" and t: "?P t"
    and r: "forE [1..getHeight w src - 2] (detectEdges_at src dst i1) t = Inr t'" for i1 t t'
  proof (rule forE_invariant [OF r, where P = ?P])
    show "?P t" by (rule t)
  next
    fix i2 u u'
    assume i2: "i2 \<in> set [1..getHeight w src - 2]" and u: "?P u"
      and step: "detectEdges_at src dst i1 i2 u = Inr u'"
    have ne: "x \<noteq> i1 \<or> y \<noteq> i2" using border i1 i2 by auto
    from detectEdges_at_frame [OF step, of x y] ne u show "?P u'" by auto
  qed
  have "?P w'"
  proof (rule forE_invariant [where P = ?P, OF run [unfolded Filters_detectEdges_def]])
    show "?P w" by simp
  next
    fix i1 t t'
    assume "i1 \<in> set [1..getWidth w src - 2]" "?P t"
      "forE [1..getHeight w src - 2] (detectEdges_at src dst i1) t = Inr t'"
    then show "?P t'" by (rule inner)
  qed
  then show ?thesis by simp
qed

theorem detectEdges_border_untouched_witness:
  "\<exists>w'. Filters_detectEdges edge_world 0 1 = Inr w'
       \<and> getColor w' 1 0 0 = getColor edge_world 1 0 0
       \<and> getColor w' 1 2 1 = getColor edge_world 1 2 1
       \<and> pixel w' 1 1 1 = Some (Color 255 255 255 (Some 1) None)"
proof -
  have "pixel_after (Filters_detectEdges edge_world 0 1) 1 1 1
          = Inr (Some (Color 255 255 255 (Some 1) None))"
    by code_simp
  then obtain w' where run: "Filters_detectEdges edge_world 0 1 = Inr w'"
    and px: "pixel w' 1 1 1 = Some (Color 255 255 255 (Some 1) None)"
    by (auto simp: pixel_after_def split: sum.splits)
  have dims: "getWidth edge_world 0 = 3"
    by (simp add: getWidth_def edge_world_def surface_def)
  have "getColor w' 1 0 0 = getColor edge_world 1 0 0"
    using detectEdges_border_untouched [OF run, of 0 0] by simp
  moreover have "getColor w' 1 2 1 = getColor edge_world 1 2 1"
    using detectEdges_border_untouched [OF run, of 2 1] dims by simp
  ultimately show ?thesis using run px by blast
qed

text \<open>
  The border of a smaller destination is written. With the 4\<times>4 source 0 and the
  3\<times>3 destination 1, the scan reaches (2, 2), which is inside the source and on the
  right and bottom border of the destination: the destination pixel (2, 2) held the clear
  color and holds opaque white after the call.
\<close>

theorem detectEdges_smaller_destination_counterexample:
  "getWidth wide_world 1 = 3 \<and> getHeight wide_world 1 = 3
   \<and> pixel wide_world 1 2 2 = Some clear
   \<and> pixel_after (Filters_detectEdges wide_world 0 1) 1 2 2
       = Inr (Some (Color 255 255 255 (Some 1) None))"
  by code_simp

section \<open>Histogram buckets\<close>

































section \<open>Powers and logarithms\<close>

lemma powerOf_eq: "powerOf base n = base ^ nat n"
proof (induction base n rule: powerOf.induct)
  case (1 base n)
  show ?case
  proof (cases "n \<le> 0")
    case True
    then show ?thesis by (subst powerOf.simps) simp
  next
    case False
    then have "nat n = Suc (nat (n - 1))" by simp
    then show ?thesis using False 1 by (subst powerOf.simps) simp
  qed
qed

lemma scale_eq: "scale base e = of_int base powi e"
  by (simp add: scale_def powerOf_eq power_int_def power_inverse divide_inverse)

lemma scale_2: "scale 2 e = 2 powi e"
  using scale_eq [of 2 e] by simp

lemma scale_10: "scale 10 e = 10 powi e"
  using scale_eq [of 10 e] by simp

lemma digitCount_bounds:
  assumes "0 < n" "1 < base"
  shows "1 \<le> digitCount base n \<and> base ^ nat (digitCount base n - 1) \<le> n \<and> n < base ^ nat (digitCount base n)"
  using assms
proof (induction base n rule: digitCount.induct)
  case (1 base n)
  have step: "digitCount base n = digitCount base (n div base) + 1"
    using 1(2,3) by (subst digitCount.simps) simp
  have b0: "0 < base" using 1(3) by simp
  show ?case
  proof (cases "n div base = 0")
    case True
    have "n = base * (n div base) + n mod base" by simp
    then have "n = n mod base" unfolding True by simp
    then have "n < base" using pos_mod_bound [OF b0, of n] by simp
    moreover have "digitCount base (n div base) = 0" unfolding True by (subst digitCount.simps) simp
    ultimately show ?thesis using 1(2) by (simp add: step)
  next
    case False
    have "0 \<le> n div base" using 1(2) b0 by (simp add: pos_imp_zdiv_nonneg_iff)
    with False have pos: "0 < n div base" by simp
    have ih: "1 \<le> digitCount base (n div base)"
      "base ^ nat (digitCount base (n div base) - 1) \<le> n div base"
      "n div base < base ^ nat (digitCount base (n div base))"
      using 1(1) [OF _ pos 1(3)] 1(2,3) by auto
    define c where "c = digitCount base (n div base)"
    have nc: "nat c = Suc (nat (c - 1))" using ih(1) by (simp add: c_def)
    have dm: "n = base * (n div base) + n mod base" by simp
    have md: "0 \<le> n mod base" "n mod base < base" using b0 by simp_all
    have lo: "base * (n div base) \<le> n" using dm md by linarith
    have "base ^ nat c = base * base ^ nat (c - 1)" by (simp add: nc)
    also have "\<dots> \<le> base * (n div base)" using ih(2) b0 unfolding c_def by (intro mult_left_mono) simp_all
    also have "\<dots> \<le> n" by (rule lo)
    finally have 1: "base ^ nat c \<le> n" .
    have "n < base * (n div base) + base" using dm md by linarith
    also have "\<dots> = base * (n div base + 1)" by (simp add: distrib_left)
    also have "\<dots> \<le> base * base ^ nat c"
      using ih(3) b0 unfolding c_def by (intro mult_left_mono) simp_all
    finally have 2: "n < base ^ Suc (nat c)" by simp
    have "nat (c + 1) = Suc (nat c)" using ih(1) by (simp add: c_def)
    then show ?thesis using 1 2 ih(1) by (simp add: step c_def [symmetric])
  qed
qed

lemma ilog_bounds:
  assumes x: "0 < x" and base: "1 < base"
  shows "of_int base powi ilog base x \<le> x" "x < of_int base powi (ilog base x + 1)"
proof -
  have b1: "(1::real) < of_int base" using base by simp
  have both: "of_int base powi ilog base x \<le> x \<and> x < of_int base powi (ilog base x + 1)"
  proof (cases "1 \<le> x")
    case True
    define N where "N = \<lfloor>x\<rfloor>"
    define c where "c = digitCount base N"
    have N: "0 < N" using True by (simp add: N_def)
    note d = digitCount_bounds [OF N base, folded c_def]
    have il: "ilog base x = c - 1" using True by (simp add: ilog_def c_def N_def)
    have "base ^ nat (c - 1) \<le> N" using d by simp
    then have "(of_int (base ^ nat (c - 1)) :: real) \<le> of_int N" by (simp only: of_int_le_iff)
    moreover have "of_int base powi (c - 1) = (of_int (base ^ nat (c - 1)) :: real)"
      using d by (simp add: power_int_def)
    moreover have "of_int N \<le> x" by (simp add: N_def)
    ultimately have 1: "of_int base powi (c - 1) \<le> x" by linarith
    have "N + 1 \<le> base ^ nat c" using d by simp
    then have "(of_int (N + 1) :: real) \<le> of_int (base ^ nat c)" by (simp only: of_int_le_iff)
    moreover have "x < of_int (N + 1)" by (simp add: N_def)
    moreover have "of_int base powi c = (of_int (base ^ nat c) :: real)"
      using d by (simp add: power_int_def)
    ultimately have 2: "x < of_int base powi c" by simp
    show ?thesis using 1 2 by (simp add: il)
  next
    case False
    define y where "y = 1 / x"
    define N where "N = \<lceil>y\<rceil> - 1"
    define c where "c = digitCount base N"
    have y1: "1 < y" using False x by (simp add: y_def)
    then have "1 < \<lceil>y\<rceil>" by (simp add: less_ceiling_iff)
    then have N: "0 < N" by (simp add: N_def)
    note d = digitCount_bounds [OF N base, folded c_def]
    have il: "ilog base x = - c" using False by (simp add: ilog_def c_def N_def y_def)
    have Ny: "of_int N < y" "y \<le> of_int N + 1"
      unfolding N_def by (simp_all add: less_ceiling_iff) linarith+
    have pc: "of_int base powi c = (of_int (base ^ nat c) :: real)"
      "of_int base powi (c - 1) = (of_int (base ^ nat (c - 1)) :: real)"
      using d by (simp_all add: power_int_def)
    have "N + 1 \<le> base ^ nat c" using d by simp
    then have "(of_int (N + 1) :: real) \<le> of_int (base ^ nat c)" by (simp only: of_int_le_iff)
    then have up: "y \<le> of_int base powi c" using Ny(2) unfolding pc by simp
    have "base ^ nat (c - 1) \<le> N" using d by simp
    then have "(of_int (base ^ nat (c - 1)) :: real) \<le> of_int N" by (simp only: of_int_le_iff)
    then have low: "of_int base powi (c - 1) < y" using Ny(1) unfolding pc by linarith
    have "(0::real) < of_int base" using base by simp
    then have pos: "(0::real) < of_int base powi c" "(0::real) < of_int base powi (c - 1)"
      by (rule zero_less_power_int)+
    have ay: "x = 1 / y" using x by (simp add: y_def)
    have "(of_int base :: real) powi (- c) = 1 / of_int base powi c" by (rule power_int_minus_divide)
    also have "\<dots> \<le> 1 / y" using up y1 by (intro divide_left_mono) simp_all
    finally have 1: "of_int base powi (- c) \<le> x" by (simp add: ay)
    have "1 / y < 1 / (of_int base :: real) powi (c - 1)"
      using low pos(2) by (intro divide_strict_left_mono) simp_all
    also have "\<dots> = of_int base powi (- (c - 1))" by (rule power_int_minus_divide [symmetric])
    finally have 2: "x < of_int base powi (- c + 1)" by (simp add: ay)
    show ?thesis using 1 2 by (simp add: il)
  qed
  show "of_int base powi ilog base x \<le> x" "x < of_int base powi (ilog base x + 1)"
    using both by simp_all
qed

lemma ilog_unique:
  assumes base: "1 < base" and lo: "of_int base powi e \<le> x" and hi: "x < of_int base powi (e + 1)"
  shows "ilog base x = e"
proof -
  have b1: "(1::real) < of_int base" using base by simp
  have "(0::real) < of_int base" using base by simp
  then have "(0::real) < of_int base powi e" by (rule zero_less_power_int)
  then have x: "0 < x" using lo by simp
  note i = ilog_bounds [OF x base]
  have "(of_int base :: real) powi ilog base x < of_int base powi (e + 1)" using i(1) hi by simp
  then have 1: "ilog base x < e + 1"
    using b1 by (metis not_less power_int_increasing less_imp_le)
  have "(of_int base :: real) powi e < of_int base powi (ilog base x + 1)" using i(2) lo by simp
  then have 2: "e < ilog base x + 1"
    using b1 by (metis not_less power_int_increasing less_imp_le)
  show ?thesis using 1 2 by simp
qed

lemma roundEven_cases: "roundEven t = \<lfloor>t\<rfloor> \<or> roundEven t = \<lfloor>t\<rfloor> + 1"
  by (simp add: roundEven_def Let_def)

lemma roundEven_err: "\<bar>of_int (roundEven t) - t\<bar> \<le> 1 / 2"
proof -
  have "of_int \<lfloor>t\<rfloor> \<le> t" "t < of_int \<lfloor>t\<rfloor> + 1" by linarith+
  then show ?thesis by (auto simp: roundEven_def Let_def)
qed

lemma roundEven_near:
  assumes "\<bar>t - of_int N\<bar> < 1 / 2"
  shows "roundEven t = N"
proof -
  have f: "of_int \<lfloor>t\<rfloor> \<le> t" "t < of_int \<lfloor>t\<rfloor> + 1" by linarith+
  from roundEven_cases [of t] show ?thesis
  proof
    assume rest: "roundEven t = \<lfloor>t\<rfloor>"
    have "t - of_int \<lfloor>t\<rfloor> \<le> 1 / 2" using rest by (auto simp: roundEven_def Let_def split: if_splits)
    then have "\<bar>of_int \<lfloor>t\<rfloor> - of_int N :: real\<bar> < 1" using assms f by linarith
    then have "\<bar>\<lfloor>t\<rfloor> - N\<bar> < 1" by (metis of_int_diff of_int_abs of_int_less_1_iff)
    then show ?thesis using rest by simp
  next
    assume rest: "roundEven t = \<lfloor>t\<rfloor> + 1"
    have "1 / 2 \<le> t - of_int \<lfloor>t\<rfloor>" using rest by (auto simp: roundEven_def Let_def split: if_splits)
    then have "\<bar>of_int \<lfloor>t\<rfloor> + 1 - of_int N :: real\<bar> < 1" using assms f by linarith
    then have "\<bar>of_int (\<lfloor>t\<rfloor> + 1) - of_int N :: real\<bar> < 1" by simp
    then have "\<bar>(\<lfloor>t\<rfloor> + 1) - N\<bar> < 1" by (metis of_int_diff of_int_abs of_int_less_1_iff)
    then show ?thesis using rest by simp
  qed
qed

lemma roundEven_of_int: "roundEven (of_int N) = N"
  by (rule roundEven_near) simp

section \<open>Rounding to a double\<close>

text \<open>
  A double is a whole multiple, below 2^53, of its quantum; and a real number closer to
  a double \<open>m\<close> than \<open>m\<close> / 2^54 rounds to \<open>m\<close>.
\<close>

lemma pow2_split: "(2::real) powi e = 2 powi (e - int k) * 2 ^ k"
proof -
  have "(2::real) powi (e - int k + int k) = 2 powi (e - int k) * 2 powi int k"
    by (rule power_int_add) simp
  then show ?thesis by simp
qed

lemma pow10_split: "(10::real) powi e = 10 powi (e - int k) * 10 ^ k"
proof -
  have "(10::real) powi (e - int k + int k) = 10 powi (e - int k) * 10 powi int k"
    by (rule power_int_add) simp
  then show ?thesis by simp
qed

lemma quantum_eq: "quantum x = 2 powi (exponent x - 52)"
  by (simp add: quantum_def scale_2)

lemma quantum_pos: "0 < quantum x"
  by (simp add: quantum_eq)

lemma quantum_minus: "quantum (- x) = quantum x"
  by (simp add: quantum_def exponent_def)

lemma toDouble_minus: "toDouble (- x) = map_option uminus (toDouble x)"
  by (simp add: toDouble_def Let_def quantum_minus sgn_minus)

lemma toDouble_pos:
  assumes "0 < x"
  shows "toDouble x =
    (if 2 powi 1024 \<le> of_int (roundEven (x / quantum x)) * quantum x then None
     else Some (of_int (roundEven (x / quantum x)) * quantum x))"
  using assms by (simp add: toDouble_def Let_def scale_2)

lemma exponent_ge: "- 1022 \<le> exponent x"
  by (simp add: exponent_def)

lemma exponent_upper:
  assumes x: "0 < x"
  shows "x < 2 powi (exponent x + 1)"
proof -
  have "x < 2 powi (ilog 2 x + 1)" using ilog_bounds(2) [OF x, of 2] by simp
  also have "\<dots> \<le> 2 powi (exponent x + 1)"
    using x by (intro power_int_increasing) (simp_all add: exponent_def)
  finally show ?thesis .
qed

lemma exponent_lower:
  assumes x: "0 < x" and e: "- 1022 < exponent x"
  shows "2 powi exponent x \<le> x"
proof -
  have "exponent x = ilog 2 x" using e x by (simp add: exponent_def max_def split: if_splits)
  then show ?thesis using ilog_bounds(1) [OF x, of 2] by simp
qed

lemma exponent_eqI:
  assumes "2 powi e \<le> x" "x < 2 powi (e + 1)" "- 1022 \<le> e"
  shows "exponent x = e"
proof -
  have "(0::real) < 2 powi e" by simp
  then have x: "0 < x" using assms(1) by linarith
  have "ilog 2 x = e" by (rule ilog_unique) (use assms in simp_all)
  then show ?thesis using x assms(3) by (simp add: exponent_def)
qed

lemma double_grid:
  assumes m: "isDouble m" "0 < m"
  shows "\<exists>N. m = of_int N * quantum m \<and> 0 < N \<and> N < 2 ^ 53" and "m < 2 powi 1024"
proof -
  define q where "q = quantum m"
  define N where "N = roundEven (m / q)"
  have q0: "0 < q" by (simp add: q_def quantum_pos)
  from m have "toDouble m = Some m" by (simp add: isDouble_def)
  then have y: "\<not> 2 powi 1024 \<le> of_int N * q" "of_int N * q = m"
    unfolding toDouble_pos [OF m(2)] N_def q_def by (simp_all split: if_splits)
  show "m < 2 powi 1024" using y by simp
  have Npos: "0 < N"
  proof -
    have "0 < of_int N * q" using y(2) m(2) by simp
    then have "(0::real) < of_int N" using q0 by (simp add: zero_less_mult_iff)
    then show ?thesis by simp
  qed
  have "m < 2 powi (exponent m + 1)" by (rule exponent_upper [OF m(2)])
  also have "\<dots> = q * 2 ^ 53"
    unfolding q_def quantum_eq using pow2_split [of "exponent m + 1" 53] by simp
  finally have "of_int N * q < 2 ^ 53 * q" using y(2) by (simp add: mult.commute)
  then have "(of_int N :: real) < 2 ^ 53" using q0 by simp
  then have "(of_int N :: real) < of_int (2 ^ 53)" by simp
  then have "N < 2 ^ 53" by (simp only: of_int_less_iff)
  moreover have "m = of_int N * quantum m" using y(2) by (simp add: q_def)
  ultimately show "\<exists>N. m = of_int N * quantum m \<and> 0 < N \<and> N < 2 ^ 53"
    using Npos by blast
qed

lemma toDouble_near:
  assumes m: "isDouble m" "0 < m" and near: "\<bar>x - m\<bar> * 2 ^ 54 < m"
  shows "toDouble x = Some m"
proof -
  define e where "e = exponent m"
  define q where "q = (2::real) powi (e - 52)"
  have qm: "quantum m = q" by (simp add: q_def e_def quantum_eq)
  from double_grid [OF m] obtain N where
    N: "m = of_int N * q" "0 < N" "N < 2 ^ 53" and big: "m < 2 powi 1024"
    unfolding qm by blast
  have q0: "0 < q" by (simp add: q_def)
  have x: "0 < x" using near m(2) by (cases "x \<le> 0") (simp_all add: abs_if split: if_splits)
  have pe: "2 powi (e + 1) = q * 2 ^ 53" "2 powi e = q * 2 ^ 52"
    using pow2_split [of "e + 1" 53] pow2_split [of e 52] by (simp_all add: q_def)
  have up: "m < q * 2 ^ 53" using exponent_upper [OF m(2)] by (simp add: e_def [symmetric] pe)
  have d2: "\<bar>x - m\<bar> * 2 < q" using near up by simp
  have Nle: "(of_int N :: real) \<le> 2 ^ 53 - 1"
  proof -
    have "N \<le> 2 ^ 53 - 1" using N(3) by simp
    then have "(of_int N :: real) \<le> of_int (2 ^ 53 - 1)" by (simp only: of_int_le_iff)
    then show ?thesis by simp
  qed
  consider "exponent x = e" | "exponent x < e" | "e < exponent x" by linarith
  then show ?thesis
  proof cases
    case 1
    have qx: "quantum x = q" by (simp add: quantum_eq 1 q_def)
    have "x / q - of_int N = (x - m) / q" using q0 by (simp add: N(1) field_simps)
    then have "\<bar>x / q - of_int N\<bar> = \<bar>x - m\<bar> / q" using q0 by simp
    also have "\<dots> < 1 / 2" using d2 q0 by (simp add: field_simps)
    finally have "roundEven (x / q) = N" by (rule roundEven_near)
    then show ?thesis using big by (simp add: toDouble_pos [OF x] qx N(1))
  next
    case 2
    have e1: "- 1022 < e" using 2 exponent_ge [of x] by simp
    have lo: "q * 2 ^ 52 \<le> m" using exponent_lower [OF m(2)] e1 by (simp add: e_def [symmetric] pe)
    have "x < 2 powi (exponent x + 1)" by (rule exponent_upper [OF x])
    also have "\<dots> \<le> 2 powi e" using 2 by (intro power_int_increasing) simp_all
    finally have xe: "x < q * 2 ^ 52" by (simp add: pe)
    define P where "P = q * 2 ^ 52"
    have "m < P + q / 2" using d2 xe unfolding P_def [symmetric] by argo
    then have "of_int N * q < (2 ^ 52 + 1 / 2) * q" by (simp add: N(1) P_def algebra_simps)
    then have "(of_int N :: real) < 2 ^ 52 + 1 / 2" using q0 by (simp only: mult_less_cancel_right_pos)
    then have "(of_int N :: real) < of_int (2 ^ 52 + 1)" by simp
    then have "N < 2 ^ 52 + 1" by (simp only: of_int_less_iff)
    moreover have "2 ^ 52 \<le> N"
    proof -
      have "(2 ^ 52 :: real) * q \<le> of_int N * q" using lo N(1) by (simp add: mult.commute)
      then have "(2 ^ 52 :: real) \<le> of_int N" using q0 by simp
      then have "(of_int (2 ^ 52) :: real) \<le> of_int N" by simp
      then show ?thesis by (simp only: of_int_le_iff)
    qed
    ultimately have Neq: "N = 2 ^ 52" by simp
    have meq: "m = q * 2 ^ 52" by (simp add: N(1) Neq)
    have d4: "\<bar>x - m\<bar> * 4 < q" using near q0 by (simp add: meq)
    have "q \<le> q * 2 ^ 51" using q0 by simp
    then have "q * 2 ^ 51 \<le> x" using d4 by (simp add: meq abs_if split: if_splits)
    then have xl: "2 powi (e - 1) \<le> x" using pow2_split [of "e - 1" 51] by (simp add: q_def)
    have "x < 2 powi (e - 1 + 1)" using xe by (simp add: pe)
    with xl have ex: "exponent x = e - 1" by (rule exponent_eqI) (use e1 in simp)
    have qx: "quantum x = q / 2" using pow2_split [of "e - 52" 1] by (simp add: quantum_eq ex q_def)
    have eq: "x / (q / 2) - of_int (2 ^ 53) = (x - m) * (2 / q)"
      using q0 by (simp add: meq field_simps)
    have p: "0 < 2 / q" using q0 by simp
    have "\<bar>(x - m) * (2 / q)\<bar> = \<bar>x - m\<bar> * (2 / q)"
      by (simp only: abs_mult abs_of_pos [OF p])
    also have "\<dots> < 1 / 2" using d4 q0 by (simp add: field_simps)
    finally have "\<bar>x / (q / 2) - of_int (2 ^ 53)\<bar> < 1 / 2" unfolding eq .
    then have "roundEven (x / (q / 2)) = 2 ^ 53" by (rule roundEven_near)
    then show ?thesis using big by (simp add: toDouble_pos [OF x] qx meq)
  next
    case 3
    have "- 1022 < exponent x" using 3 exponent_ge [of m] by (simp add: e_def)
    then have "2 powi exponent x \<le> x" by (rule exponent_lower [OF x])
    moreover have "(2::real) powi (e + 1) \<le> 2 powi exponent x"
      using 3 by (intro power_int_increasing) simp_all
    ultimately have "q * 2 ^ 53 \<le> x" by (simp add: pe)
    moreover have "m \<le> (2 ^ 53 - 1) * q" unfolding N(1) using Nle q0 by (intro mult_right_mono) simp_all
    ultimately have "q \<le> x - m" by (simp add: algebra_simps)
    then show ?thesis using d2 q0 by simp
  qed
qed

lemma int_isDouble:
  assumes "\<bar>z\<bar> < 2 ^ 53"
  shows "isDouble (of_int z)"
proof (cases "z = 0")
  case True
  then show ?thesis by (simp add: isDouble_def toDouble_def)
next
  case False
  define av where "av = (of_int \<bar>z\<bar> :: real)"
  define e where "e = ilog 2 av"
  have a1: "1 \<le> av" using False by (simp add: av_def)
  then have a0: "0 < av" by simp
  have "(of_int \<bar>z\<bar> :: real) < of_int (2 ^ 53)" using assms by (simp only: of_int_less_iff)
  then have a53: "av < 2 ^ 53" by (simp add: av_def)
  note i = ilog_bounds [OF a0, of 2, folded e_def, simplified]
  have e0: "0 \<le> e"
  proof (rule ccontr)
    assume "\<not> 0 \<le> e"
    then have "(2::real) powi (e + 1) \<le> 2 powi 0" by (intro power_int_increasing) simp_all
    then show False using i(2) a1 by simp
  qed
  have e52: "e \<le> 52"
  proof (rule ccontr)
    assume "\<not> e \<le> 52"
    then have "(2::real) powi 53 \<le> 2 powi e" by (intro power_int_increasing) simp_all
    then show False using i(1) a53 by simp
  qed
  define k where "k = nat (52 - e)"
  have ex: "exponent (of_int z) = e" using e0 by (simp add: exponent_def e_def av_def)
  have "(2::real) powi (e - 52) = 2 powi (- int k)" using e52 by (simp add: k_def)
  also have "\<dots> = 1 / 2 ^ k" by (simp add: power_int_minus_divide)
  finally have q: "quantum (of_int z) = 1 / 2 ^ k" by (simp add: quantum_eq ex)
  have "av / (1 / 2 ^ k) = of_int (\<bar>z\<bar> * 2 ^ k)" by (simp add: av_def)
  then have rest: "roundEven (av / (1 / 2 ^ k)) = \<bar>z\<bar> * 2 ^ k" by (simp only: roundEven_of_int)
  have az: "\<bar>of_int z :: real\<bar> = av" by (simp add: av_def)
  have Y: "of_int (roundEven (\<bar>of_int z\<bar> / quantum (of_int z))) * quantum (of_int z) = av"
    unfolding q az rest by (simp add: av_def)
  have big: "\<not> (2::real) powi 1024 \<le> av" using a53 by simp
  have sg: "sgn (of_int z :: real) * av = of_int z" unfolding av_def by (simp add: sgn_if)
  show ?thesis
    unfolding isDouble_def toDouble_def Let_def Y scale_2 using False big sg by simp
qed

section \<open>The shortest digits\<close>

text \<open>
  The decimal of 17 digits nearest to a double rounds to it, so the search for the
  shortest digits ends with digits that name the double.
\<close>

lemma pow10_inv: "(10::real) powi (int k - n) * 10 powi (n - int k) = 1"
proof -
  have "(10::real) powi (int k - n + (n - int k)) = 10 powi (int k - n) * 10 powi (n - int k)"
    by (rule power_int_add) simp
  then show ?thesis by simp
qed

lemma pow10_add: "(10::real) powi av * 10 powi base = 10 powi (av + base)"
  by (rule power_int_add [symmetric]) simp

lemma decimal_candidates:
  fixes m :: real and n :: int and k :: nat
  assumes lo: "10 powi (n - 1) \<le> m" and hi: "m < 10 powi n" and k: "1 \<le> k"
  defines "t \<equiv> m * 10 powi (int k - n)"
  shows "10 ^ (k - 1) \<le> \<lfloor>t\<rfloor>" "\<lfloor>t\<rfloor> < 10 ^ k"
    and "decimal \<lfloor>t\<rfloor> (n - int k) \<le> m" "m < decimal (\<lfloor>t\<rfloor> + 1) (n - int k)"
    and "\<bar>decimal (roundEven t) (n - int k) - m\<bar> \<le> 10 powi (n - int k) / 2"
    and "10 ^ (k - 1) \<le> s \<Longrightarrow> s \<le> 10 ^ k \<Longrightarrow>
           10 powi (n - 1) \<le> decimal s (n - int k) \<and> decimal s (n - int k) \<le> 10 powi n"
proof -
  define P where "P = (10::real) powi (n - int k)"
  define Q where "Q = (10::real) powi (int k - n)"
  have P0: "0 < P" and Q0: "0 < Q" by (simp_all add: P_def Q_def)
  have QP: "Q * P = 1" unfolding P_def Q_def by (rule pow10_inv)
  have tQ: "t = m * Q" by (simp add: t_def Q_def)
  have tP: "t * P = m" unfolding t_def Q_def [symmetric] using QP by (simp add: mult.assoc)
  have dec: "decimal s (n - int k) = of_int s * P" for s by (simp add: decimal_def scale_10 P_def)
  have k1: "int k - 1 = int (k - 1)" using k by simp
  have a1: "n - 1 + (int k - n) = int (k - 1)" "n + (int k - n) = int k"
    "int (k - 1) + (n - int k) = n - 1" "int k + (n - int k) = n"
    using k by simp_all
  have e1: "(10::real) powi (n - 1) * Q = 10 ^ (k - 1)"
    unfolding Q_def pow10_add a1 by (rule power_int_of_nat)
  have e2: "(10::real) powi n * Q = 10 ^ k"
    unfolding Q_def pow10_add a1 by (rule power_int_of_nat)
  have e3: "(10::real) ^ (k - 1) * P = 10 powi (n - 1)"
    unfolding P_def power_int_of_nat [symmetric] pow10_add a1 ..
  have e4: "(10::real) ^ k * P = 10 powi n"
    unfolding P_def power_int_of_nat [symmetric] pow10_add a1 ..
  have "10 powi (n - 1) * Q \<le> m * Q" using lo Q0 by (intro mult_right_mono) simp_all
  then have "(10::real) ^ (k - 1) \<le> t" by (simp only: e1 tQ)
  then have t1: "(of_int (10 ^ (k - 1)) :: real) \<le> t" by simp
  then show f1: "10 ^ (k - 1) \<le> \<lfloor>t\<rfloor>" by (simp only: le_floor_iff)
  have "m * Q < 10 powi n * Q" using hi Q0 by (intro mult_strict_right_mono) simp_all
  then have "t < 10 ^ k" by (simp only: e2 tQ)
  then have t2: "t < of_int (10 ^ k)" by simp
  then show f2: "\<lfloor>t\<rfloor> < 10 ^ k" by (simp only: floor_less_iff)
  have "of_int \<lfloor>t\<rfloor> * P \<le> t * P" using P0 by (intro mult_right_mono) simp_all
  then show "decimal \<lfloor>t\<rfloor> (n - int k) \<le> m" by (simp add: dec tP)
  have "t < of_int (\<lfloor>t\<rfloor> + 1)" by linarith
  then have "t * P < of_int (\<lfloor>t\<rfloor> + 1) * P" using P0 by (intro mult_strict_right_mono) simp_all
  then show "m < decimal (\<lfloor>t\<rfloor> + 1) (n - int k)" by (simp only: dec tP)
  have "decimal (roundEven t) (n - int k) - m = (of_int (roundEven t) - t) * P"
    by (simp add: dec tP [symmetric] algebra_simps)
  then have "\<bar>decimal (roundEven t) (n - int k) - m\<bar> = \<bar>of_int (roundEven t) - t\<bar> * P"
    by (simp only: abs_mult abs_of_pos [OF P0])
  also have "\<dots> \<le> 1 / 2 * P" using roundEven_err [of t] P0 by (intro mult_right_mono) simp_all
  finally show "\<bar>decimal (roundEven t) (n - int k) - m\<bar> \<le> 10 powi (n - int k) / 2"
    by (simp add: P_def)
  show "10 powi (n - 1) \<le> decimal s (n - int k) \<and> decimal s (n - int k) \<le> 10 powi n"
    if s: "10 ^ (k - 1) \<le> s" "s \<le> 10 ^ k"
  proof -
    have "(of_int (10 ^ (k - 1)) :: real) \<le> of_int s" "(of_int s :: real) \<le> of_int (10 ^ k)"
      using s by (simp_all only: of_int_le_iff)
    then have "(10::real) ^ (k - 1) \<le> of_int s" "(of_int s :: real) \<le> 10 ^ k" by simp_all
    then have "(10::real) ^ (k - 1) * P \<le> of_int s * P" "of_int s * P \<le> 10 ^ k * P"
      using P0 by (simp_all only: mult_le_cancel_right_pos)
    then show ?thesis by (simp only: dec e3 e4)
  qed
qed

lemma decimal_order:
  assumes "isDouble m" "0 < m"
  shows "10 powi (ilog 10 m) \<le> m" "m < 10 powi (ilog 10 m + 1)"
  using ilog_bounds [OF assms(2), of 10] by simp_all

lemma seventeen_digits:
  assumes m: "isDouble m" "0 < m" and n: "n = ilog 10 m + 1"
  shows "toDouble (decimal (roundEven (m * 10 powi (17 - n))) (n - 17)) = Some m"
proof -
  have lo: "10 powi (n - 1) \<le> m" and hi: "m < 10 powi n"
    using decimal_order [OF m] by (simp_all add: n)
  from decimal_candidates(5) [OF lo hi, of 17]
  have err: "\<bar>decimal (roundEven (m * 10 powi (17 - n))) (n - 17) - m\<bar> \<le> 10 powi (n - 17) / 2"
    by simp
  define P where "P = (10::real) powi (n - 17)"
  have P0: "0 < P" by (simp add: P_def)
  have "(10::real) powi (n - 1) = P * 10 ^ 16"
    using pow10_split [of "n - 1" 16] by (simp add: P_def)
  then have mP: "P * 10 ^ 16 \<le> m" using lo by simp
  have "\<bar>decimal (roundEven (m * 10 powi (17 - n))) (n - 17) - m\<bar> * 2 ^ 54 \<le> P / 2 * 2 ^ 54"
    using err unfolding P_def by (intro mult_right_mono) simp_all
  also have "\<dots> < P * 10 ^ 16" using P0 by simp
  also have "\<dots> \<le> m" by (rule mP)
  finally show ?thesis by (rule toDouble_near [OF m])
qed

lemma shortestDigits_sound:
  assumes m: "isDouble m" "0 < m" and n: "n = ilog 10 m + 1"
    and k: "1 \<le> k" "k + fuel = 17"
    and run: "shortestDigits m n k fuel = (s, e)"
  shows "toDouble (decimal s e) = Some m \<and> 0 < s
         \<and> 10 powi (n - 1) \<le> decimal s e \<and> decimal s e \<le> 10 powi n
         \<and> n - 17 \<le> e \<and> e \<le> n - int k"
  using k run
proof (induction fuel arbitrary: k)
  case 0
  have lo: "10 powi (n - 1) \<le> m" and hi: "m < 10 powi n"
    using decimal_order [OF m] by (simp_all add: n)
  from 0 have k17: "k = 17" by simp
  define t where "t = m * 10 powi (17 - n)"
  note c = decimal_candidates [OF lo hi, of 17, simplified, folded t_def]
  from 0(3) have s: "s = roundEven t" and e: "e = n - 17"
    by (simp_all add: k17 t_def scale_10)
  have "s = \<lfloor>t\<rfloor> \<or> s = \<lfloor>t\<rfloor> + 1" unfolding s by (rule roundEven_cases)
  then have base: "10 ^ 16 \<le> s" "s \<le> 10 ^ 17" using c(1,2) by auto
  have "toDouble (decimal s e) = Some m"
    unfolding s e t_def by (rule seventeen_digits [OF m n])
  moreover have "0 < s" using base(1) by simp
  moreover have "10 powi (n - 1) \<le> decimal s e \<and> decimal s e \<le> 10 powi n"
    unfolding e using c(6) [of s] base by simp
  ultimately show ?case by (simp add: e k17)
next
  case (Suc fuel)
  have lo: "10 powi (n - 1) \<le> m" and hi: "m < 10 powi n"
    using decimal_order [OF m] by (simp_all add: n)
  define t where "t = m * 10 powi (int k - n)"
  define l where "l = \<lfloor>t\<rfloor>"
  define okLo where "okLo = (toDouble (decimal l (n - int k)) = Some m)"
  define okHi where "okHi = (toDouble (decimal (l + 1) (n - int k)) = Some m)"
  note c = decimal_candidates [OF lo hi Suc.prems(1), folded t_def, folded l_def]
  have unfold: "shortestDigits m n k (Suc fuel) =
      (if okLo \<and> okHi then (roundEven t, n - int k)
       else if okLo then (l, n - int k)
       else if okHi then (l + 1, n - int k)
       else shortestDigits m n (Suc k) fuel)"
    by (simp add: Let_def scale_10 t_def l_def okLo_def okHi_def)
  have k17: "int k \<le> 17" using Suc.prems(2) by simp
  have good: "toDouble (decimal s e) = Some m \<and> 0 < s
         \<and> 10 powi (n - 1) \<le> decimal s e \<and> decimal s e \<le> 10 powi n
         \<and> n - 17 \<le> e \<and> e \<le> n - int k"
    if "s = l \<or> s = l + 1" "e = n - int k" "toDouble (decimal s e) = Some m"
  proof -
    have base: "10 ^ (k - 1) \<le> s" "s \<le> 10 ^ k" using that(1) c(1,2) by auto
    have "(0::int) < 10 ^ (k - 1)" by simp
    then have "0 < s" using base(1) by linarith
    moreover have "10 powi (n - 1) \<le> decimal s e \<and> decimal s e \<le> 10 powi n"
      unfolding that(2) using c(6) [of s] base by simp
    ultimately show ?thesis using that(2,3) k17 by simp
  qed
  show ?case
  proof (cases "okLo \<or> okHi")
    case True
    have rest: "roundEven t = l \<or> roundEven t = l + 1" unfolding l_def by (rule roundEven_cases)
    from True Suc.prems(3) have e: "e = n - int k" and
      s: "okLo \<and> okHi \<and> s = roundEven t \<or> okLo \<and> s = l \<or> okHi \<and> s = l + 1"
      unfolding unfold by (auto split: if_splits)
    from s rest have "(s = l \<or> s = l + 1) \<and> toDouble (decimal s e) = Some m"
      unfolding e okLo_def okHi_def by auto
    then show ?thesis using good e by blast
  next
    case False
    then have "shortestDigits m n (Suc k) fuel = (s, e)"
      using Suc.prems(3) unfolding unfold by simp
    moreover have "1 \<le> Suc k" "Suc k + fuel = 17" using Suc.prems(2) by simp_all
    ultimately have "toDouble (decimal s e) = Some m \<and> 0 < s
         \<and> 10 powi (n - 1) \<le> decimal s e \<and> decimal s e \<le> 10 powi n
         \<and> n - 17 \<le> e \<and> e \<le> n - int (Suc k)"
      by (intro Suc.IH)
    then show ?thesis by simp
  qed
qed

lemma shortestDigits_stops:
  assumes "k \<le> k0"
    and "toDouble (decimal \<lfloor>m * 10 powi (int k0 - n)\<rfloor> (n - int k0)) = Some m"
  shows "n - int k0 \<le> snd (shortestDigits m n k fuel)"
  using assms(1)
proof (induction fuel arbitrary: k)
  case 0
  then show ?case by simp
next
  case (Suc fuel)
  define t where "t = m * 10 powi (int k - n)"
  define l where "l = \<lfloor>t\<rfloor>"
  define okLo where "okLo = (toDouble (decimal l (n - int k)) = Some m)"
  define okHi where "okHi = (toDouble (decimal (l + 1) (n - int k)) = Some m)"
  have unfold: "shortestDigits m n k (Suc fuel) =
      (if okLo \<and> okHi then (roundEven t, n - int k)
       else if okLo then (l, n - int k)
       else if okHi then (l + 1, n - int k)
       else shortestDigits m n (Suc k) fuel)"
    by (simp add: Let_def scale_10 t_def l_def okLo_def okHi_def)
  show ?case
  proof (cases "okLo \<or> okHi")
    case True
    then have "snd (shortestDigits m n k (Suc fuel)) = n - int k"
      unfolding unfold by auto
    then show ?thesis using Suc.prems by simp
  next
    case False
    have "k \<noteq> k0"
    proof
      assume "k = k0"
      then have okLo using assms(2) by (simp add: okLo_def l_def t_def)
      with False show False by simp
    qed
    then have "Suc k \<le> k0" using Suc.prems by simp
    then have "n - int k0 \<le> snd (shortestDigits m n (Suc k) fuel)" by (rule Suc.IH)
    then show ?thesis using False unfolding unfold by simp
  qed
qed

section \<open>Digits and numbers as text\<close>

lemma digitOf_digitChar: "0 \<le> d \<Longrightarrow> d < 10 \<Longrightarrow> digitOf 10 (digitChar d) = Some d"
  by (simp add: digitOf_def digitChar_def Let_def)

lemma isDigit_digitChar: "0 \<le> d \<Longrightarrow> d < 10 \<Longrightarrow> isDigit 10 (digitChar d)"
  by (simp add: isDigit_def digitOf_digitChar)

lemma digitChar_plain:
  assumes "0 \<le> d" "d < 10"
  shows "digitChar d \<noteq> CHR '';''" "digitChar d \<noteq> CHR '',''" "digitChar d \<noteq> CHR ''-''"
    "digitChar d \<noteq> CHR ''+''" "digitChar d \<noteq> CHR ''x''" "digitChar d \<noteq> CHR ''X''"
    "digitChar d \<noteq> CHR ''n''" "\<not> isWhiteSpace (digitChar d)"
proof -
  have v: "(of_char (digitChar d) :: int) = 48 + d"
    using assms by (simp add: digitChar_def)
  have "c \<noteq> digitChar d" if "(of_char c :: int) \<noteq> 48 + d" for c
    using that v by auto
  note ne = this
  show "digitChar d \<noteq> CHR '';''" using ne [of "CHR '';''"] assms by auto
  show "digitChar d \<noteq> CHR '',''" using ne [of "CHR '',''"] assms by auto
  show "digitChar d \<noteq> CHR ''-''" using ne [of "CHR ''-''"] assms by auto
  show "digitChar d \<noteq> CHR ''+''" using ne [of "CHR ''+''"] assms by auto
  show "digitChar d \<noteq> CHR ''x''" using ne [of "CHR ''x''"] assms by auto
  show "digitChar d \<noteq> CHR ''X''" using ne [of "CHR ''X''"] assms by auto
  show "digitChar d \<noteq> CHR ''n''" using ne [of "CHR ''n''"] assms by auto
  show "\<not> isWhiteSpace (digitChar d)" using assms by (simp add: isWhiteSpace_def v Let_def)
qed

lemma digitString_simps [simp]:
  "digitString []"
  "digitString (c # s) = ((\<exists>d. 0 \<le> d \<and> d < 10 \<and> c = digitChar d) \<and> digitString s)"
  "digitString (s @ t) = (digitString s \<and> digitString t)"
  by (auto simp: digitString_def)

lemma digitString_subset: "digitString s \<Longrightarrow> set t \<subseteq> set s \<Longrightarrow> digitString t"
  by (auto simp: digitString_def)

lemma digitString_zeros: "digitString (replicate j CHR ''0'')"
proof -
  have "(of_char CHR ''0'' :: int) = of_char (digitChar 0)" by (simp add: digitChar_def)
  then have "CHR ''0'' = digitChar 0" by (simp only: of_char_eq_iff)
  then have "\<exists>d. 0 \<le> d \<and> d < 10 \<and> CHR ''0'' = digitChar d" by (intro exI [of _ 0]) simp
  then show ?thesis by (auto simp: digitString_def)
qed

lemma decimalDigits_digits: "0 \<le> n \<Longrightarrow> digitString (decimalDigits n)"
proof (induction n rule: decimalDigits.induct)
  case (1 n)
  show ?case
  proof (cases "n < 10")
    case True
    then show ?thesis using 1(2) by (subst decimalDigits.simps) auto
  next
    case False
    have "\<exists>d. 0 \<le> d \<and> d < 10 \<and> digitChar (n mod 10) = digitChar d"
      by (rule exI [of _ "n mod 10"]) simp
    moreover have "0 \<le> n div 10" using 1(2) by simp
    ultimately show ?thesis using False 1(1) by (subst decimalDigits.simps) simp
  qed
qed

lemma decimalDigits_nonempty: "decimalDigits n \<noteq> []"
  by (subst decimalDigits.simps) simp

lemma digitsValue_Nil [simp]: "digitsValue radix [] = 0"
  by (simp add: digitsValue_def)

lemma digitsValue_snoc:
  "digitsValue radix (ds @ [c]) =
     digitsValue radix ds * radix + (case digitOf radix c of None \<Rightarrow> 0 | Some d \<Rightarrow> d)"
  by (simp add: digitsValue_def)

lemma digitsValue_append:
  "digitsValue radix (xs @ ys) = digitsValue radix xs * radix ^ length ys + digitsValue radix ys"
proof (induction ys rule: rev_induct)
  case Nil
  then show ?case by simp
next
  case (snoc y ys)
  have "digitsValue radix (xs @ ys @ [y]) = digitsValue radix ((xs @ ys) @ [y])" by simp
  also have "\<dots> = digitsValue radix (xs @ ys) * radix
      + (case digitOf radix y of None \<Rightarrow> 0 | Some d \<Rightarrow> d)"
    by (rule digitsValue_snoc)
  finally show ?case by (simp add: snoc.IH digitsValue_snoc algebra_simps)
qed

lemma digitsValue_zeros: "digitsValue 10 (replicate j CHR ''0'') = 0"
proof (induction j)
  case 0
  then show ?case by simp
next
  case (Suc j)
  have "replicate (Suc j) CHR ''0'' = replicate j CHR ''0'' @ ''0''"
    by (simp add: replicate_append_same)
  then show ?case using Suc by (simp add: digitsValue_snoc digitOf_def)
qed

lemma digitsValue_nonneg: "digitString ds \<Longrightarrow> 0 \<le> digitsValue 10 ds"
proof (induction ds rule: rev_induct)
  case Nil
  then show ?case by simp
next
  case (snoc c ds)
  then obtain d where "0 \<le> d" "d < 10" "c = digitChar d" by auto
  then show ?case using snoc by (simp add: digitsValue_snoc digitOf_digitChar)
qed

lemma digitsValue_decimalDigits: "0 \<le> n \<Longrightarrow> digitsValue 10 (decimalDigits n) = n"
proof (induction n rule: decimalDigits.induct)
  case (1 n)
  show ?case
  proof (cases "n < 10")
    case True
    then show ?thesis using 1(2)
      by (subst decimalDigits.simps) (simp add: digitsValue_def digitOf_digitChar)
  next
    case False
    have "digitOf 10 (digitChar (n mod 10)) = Some (n mod 10)" by (rule digitOf_digitChar) simp_all
    moreover have "0 \<le> n div 10" using 1(2) by simp
    ultimately show ?thesis using False 1(1)
      by (subst decimalDigits.simps) (simp add: digitsValue_snoc)
  qed
qed

lemma length_decimalDigits:
  "0 < n \<Longrightarrow> 10 ^ (length (decimalDigits n) - 1) \<le> n \<and> n < 10 ^ length (decimalDigits n)"
proof (induction n rule: decimalDigits.induct)
  case (1 n)
  show ?case
  proof (cases "n < 10")
    case True
    then show ?thesis using 1(2) by (subst (1 2) decimalDigits.simps) simp
  next
    case False
    then have pos: "0 < n div 10" by simp
    define l where "l = length (decimalDigits (n div 10))"
    have l0: "0 < l" using decimalDigits_nonempty [of "n div 10"] by (simp add: l_def)
    from 1(1) [OF False pos] have ih: "10 ^ (l - 1) \<le> n div 10" "n div 10 < 10 ^ l"
      by (simp_all add: l_def)
    have len: "length (decimalDigits n) = Suc l"
      using False by (subst decimalDigits.simps) (simp add: l_def)
    have "(10::int) ^ l = 10 * 10 ^ (l - 1)" using l0 by (cases l) simp_all
    also have "\<dots> \<le> 10 * (n div 10)" using ih(1) by simp
    also have "\<dots> \<le> n" by simp
    finally have 1: "10 ^ l \<le> n" .
    have "n div 10 + 1 \<le> 10 ^ l" using ih(2) by simp
    then have "10 * (n div 10 + 1) \<le> 10 * 10 ^ l" by simp
    moreover have "n < 10 * (n div 10 + 1)" by simp
    ultimately have 2: "n < 10 ^ Suc l" by simp
    show ?thesis using 1 2 by (simp add: len)
  qed
qed

lemma takeWhile_digitString:
  assumes "digitString s" "t = [] \<or> \<not> isDigit 10 (hd t)"
  shows "takeWhile (isDigit 10) (s @ t) = s" "dropWhile (isDigit 10) (s @ t) = t"
proof -
  have all: "\<forall>c\<in>set s. isDigit 10 c"
    using assms(1) by (auto simp: digitString_def isDigit_digitChar)
  have t: "takeWhile (isDigit 10) t = []" "dropWhile (isDigit 10) t = t"
    using assms(2) by (cases t; auto)+
  show "takeWhile (isDigit 10) (s @ t) = s" using all t by (simp add: takeWhile_append2)
  show "dropWhile (isDigit 10) (s @ t) = t" using all t by (simp add: dropWhile_append2)
qed

lemma plainText_simps [simp]:
  "plainText []"
  "plainText (c # s) = (c \<noteq> CHR '';'' \<and> c \<noteq> CHR '','' \<and> plainText s)"
  "plainText (s @ t) = (plainText s \<and> plainText t)"
  by (auto simp: plainText_def)

lemma plainText_subset: "plainText s \<Longrightarrow> set t \<subseteq> set s \<Longrightarrow> plainText t"
  by (auto simp: plainText_def)

lemma digitString_plainText:
  assumes "digitString s"
  shows "plainText s"
  unfolding plainText_def
proof
  fix c assume "c \<in> set s"
  with assms obtain d where "0 \<le> d" "d < 10" "c = digitChar d" by (auto simp: digitString_def)
  then show "c \<noteq> CHR '';'' \<and> c \<noteq> CHR '',''" by (simp add: digitChar_plain)
qed

lemma parseInt_digits:
  assumes dig: "digitString ds" and ne: "ds \<noteq> []"
  shows "parseInt ds = toDouble (of_int (digitsValue 10 ds))"
    and "parseInt (CHR ''-'' # ds) = toDouble (- of_int (digitsValue 10 ds))"
proof -
  obtain c cs where ds: "ds = c # cs" using ne by (cases ds) auto
  from dig obtain d where d: "0 \<le> d" "d < 10" "c = digitChar d" by (auto simp: ds)
  note plain = digitChar_plain [OF d(1,2), folded d(3)]
  have dw: "dropWhile isWhiteSpace ds = ds" using plain(8) by (simp add: ds)
  have rs: "readSign ds = (1, ds)" using plain(3,4) by (simp add: ds readSign_def)
  have noX: "\<forall>e\<in>set ds. e \<noteq> CHR ''x'' \<and> e \<noteq> CHR ''X''"
  proof
    fix e assume "e \<in> set ds"
    with dig obtain k where "0 \<le> k" "k < 10" "e = digitChar k" by (auto simp: digitString_def)
    then show "e \<noteq> CHR ''x'' \<and> e \<noteq> CHR ''X''" by (simp add: digitChar_plain)
  qed
  have sub: "set (take 2 ds) \<subseteq> set ds" by (rule set_take_subset)
  have hx: "take 2 ds \<noteq> ''0x''" "take 2 ds \<noteq> ''0X''"
  proof -
    show "take 2 ds \<noteq> ''0x''"
    proof
      assume "take 2 ds = ''0x''"
      then have "CHR ''x'' \<in> set (take 2 ds)" by simp
      with sub noX show False by blast
    qed
    show "take 2 ds \<noteq> ''0X''"
    proof
      assume "take 2 ds = ''0X''"
      then have "CHR ''X'' \<in> set (take 2 ds)" by simp
      with sub noX show False by blast
    qed
  qed
  have tw: "takeWhile (isDigit 10) ds = ds"
    using takeWhile_digitString(1) [OF dig, of "[]"] by simp
  show "parseInt ds = toDouble (of_int (digitsValue 10 ds))"
    unfolding parseInt_def dw rs by (simp add: Let_def hx tw ne)
  have dw': "dropWhile isWhiteSpace (CHR ''-'' # ds) = CHR ''-'' # ds"
    by (simp add: isWhiteSpace_def)
  have rs': "readSign (CHR ''-'' # ds) = (- 1, ds)" by (simp add: readSign_def)
  show "parseInt (CHR ''-'' # ds) = toDouble (- of_int (digitsValue 10 ds))"
    unfolding parseInt_def dw' rs' by (simp add: Let_def hx tw ne)
qed

lemma parseInt_null: "parseInt ''null'' = None"
  by (simp add: parseInt_def readSign_def isWhiteSpace_def isDigit_def digitOf_def
      digitsValue_def)

section \<open>Reading a decimal number back\<close>

lemma not_digit:
  "\<not> isDigit 10 CHR ''.''" "\<not> isDigit 10 CHR ''e''" "\<not> isDigit 10 CHR ''+''"
  "\<not> isDigit 10 CHR ''-''"
  by (simp_all add: isDigit_def digitOf_def)

lemma readSign_simps:
  "readSign [] = (1, [])" "readSign (CHR ''+'' # s) = (1, s)" "readSign (CHR ''-'' # s) = (- 1, s)"
  by (simp_all add: readSign_def)

lemma decimalValue_digits:
  fixes neg :: bool
  assumes ip: "digitString ip" and fp: "digitString fp" and ed: "digitString ed"
  defines "M \<equiv> of_int (digitsValue 10 ip) + of_int (digitsValue 10 fp) / 10 ^ length fp"
  defines "sc \<equiv> (if neg then CHR ''-'' else CHR ''+'')"
  defines "E \<equiv> (if neg then - digitsValue 10 ed else digitsValue 10 ed)"
  shows "ip \<noteq> [] \<Longrightarrow> decimalValue ip = Some (of_int (digitsValue 10 ip))"
    and "ip \<noteq> [] \<or> fp \<noteq> [] \<Longrightarrow> decimalValue (ip @ CHR ''.'' # fp) = Some M"
    and "ip \<noteq> [] \<Longrightarrow> decimalValue (ip @ CHR ''e'' # sc # ed)
           = Some (of_int (digitsValue 10 ip) * 10 powi E)"
    and "ip \<noteq> [] \<or> fp \<noteq> [] \<Longrightarrow> decimalValue (ip @ CHR ''.'' # fp @ CHR ''e'' # sc # ed)
           = Some (M * 10 powi E)"
proof -
  have t0: "takeWhile (isDigit 10) ip = ip" "dropWhile (isDigit 10) ip = []"
    using takeWhile_digitString [OF ip, of "[]"] by simp_all
  have t1: "takeWhile (isDigit 10) (ip @ CHR ''.'' # rest) = ip"
    "dropWhile (isDigit 10) (ip @ CHR ''.'' # rest) = CHR ''.'' # rest" for rest
    using takeWhile_digitString [OF ip, of "CHR ''.'' # rest"] not_digit by simp_all
  have t2: "takeWhile (isDigit 10) (ip @ CHR ''e'' # rest) = ip"
    "dropWhile (isDigit 10) (ip @ CHR ''e'' # rest) = CHR ''e'' # rest" for rest
    using takeWhile_digitString [OF ip, of "CHR ''e'' # rest"] not_digit by simp_all
  have t3: "takeWhile (isDigit 10) fp = fp" "dropWhile (isDigit 10) fp = []"
    using takeWhile_digitString [OF fp, of "[]"] by simp_all
  have t4: "takeWhile (isDigit 10) (fp @ CHR ''e'' # rest) = fp"
    "dropWhile (isDigit 10) (fp @ CHR ''e'' # rest) = CHR ''e'' # rest" for rest
    using takeWhile_digitString [OF fp, of "CHR ''e'' # rest"] not_digit by simp_all
  have t5: "takeWhile (isDigit 10) ed = ed"
    using takeWhile_digitString [OF ed, of "[]"] by simp_all
  have rs: "readSign (sc # ed) = (if neg then - 1 else 1, ed)"
    by (simp add: sc_def readSign_simps)
  show "ip \<noteq> [] \<Longrightarrow> decimalValue ip = Some (of_int (digitsValue 10 ip))"
    unfolding decimalValue_def by (simp add: Let_def t0 readSign_simps scale_10)
  show "ip \<noteq> [] \<or> fp \<noteq> [] \<Longrightarrow> decimalValue (ip @ CHR ''.'' # fp) = Some M"
    unfolding decimalValue_def by (simp add: Let_def t1 t3 readSign_simps scale_10 M_def)
  show "ip \<noteq> [] \<Longrightarrow> decimalValue (ip @ CHR ''e'' # sc # ed)
           = Some (of_int (digitsValue 10 ip) * 10 powi E)"
    unfolding decimalValue_def by (simp add: Let_def t2 t5 rs scale_10 E_def)
  show "ip \<noteq> [] \<or> fp \<noteq> [] \<Longrightarrow> decimalValue (ip @ CHR ''.'' # fp @ CHR ''e'' # sc # ed)
           = Some (M * 10 powi E)"
    unfolding decimalValue_def by (simp add: Let_def t1 t4 t5 rs scale_10 M_def E_def)
qed

lemma pow10_neg: "(10::real) powi (- int j) = 1 / 10 ^ j"
  by (simp add: power_int_minus_divide)

lemma digitsValue_split:
  "of_int (digitsValue 10 (take j ts)) + of_int (digitsValue 10 (drop j ts)) / 10 ^ length (drop j ts)
     = (of_int (digitsValue 10 ts) :: real) / 10 ^ length (drop j ts)"
proof -
  have "digitsValue 10 (take j ts @ drop j ts)
      = digitsValue 10 (take j ts) * 10 ^ length (drop j ts) + digitsValue 10 (drop j ts)"
    by (rule digitsValue_append)
  then have "(of_int (digitsValue 10 ts) :: real)
      = of_int (digitsValue 10 (take j ts)) * 10 ^ length (drop j ts)
        + of_int (digitsValue 10 (drop j ts))"
    by simp
  then show ?thesis by (simp add: field_simps)
qed

lemma formatDigits_value:
  assumes ts: "digitString ts" "ts \<noteq> []"
  shows "decimalValue (formatDigits ts n)
           = Some (of_int (digitsValue 10 ts) * 10 powi (n - int (length ts)))"
proof -
  define k where "k = int (length ts)"
  define D where "D = (of_int (digitsValue 10 ts) :: real)"
  have k1: "1 \<le> k" using ts(2) by (cases ts) (simp_all add: k_def)
  consider (A) "k \<le> n" "n \<le> 21"
    | (B) "\<not> (k \<le> n \<and> n \<le> 21)" "0 < n" "n \<le> 21"
    | (C) "\<not> (k \<le> n \<and> n \<le> 21)" "\<not> (0 < n \<and> n \<le> 21)" "- 6 < n" "n \<le> 0"
    | (D) "\<not> (k \<le> n \<and> n \<le> 21)" "\<not> (0 < n \<and> n \<le> 21)" "\<not> (- 6 < n \<and> n \<le> 0)"
    by linarith
  then show ?thesis
  proof cases
    case A
    define j where "j = nat (n - k)"
    have f: "formatDigits ts n = ts @ replicate j CHR ''0''"
      using A by (simp add: formatDigits_def Let_def k_def j_def)
    have d: "digitString (ts @ replicate j CHR ''0'')" "ts @ replicate j CHR ''0'' \<noteq> []"
      using ts by (simp_all add: digitString_zeros)
    have v: "digitsValue 10 (ts @ replicate j CHR ''0'') = digitsValue 10 ts * 10 ^ j"
      by (simp add: digitsValue_append digitsValue_zeros)
    have "n - k = int j" using A by (simp add: j_def)
    then have p: "(10::real) powi (n - k) = 10 ^ j" by simp
    show ?thesis
      unfolding f decimalValue_digits(1) [OF d(1) d(1) d(1) d(2)] v k_def [symmetric] p by simp
  next
    case B
    then have nk: "n < k" by simp
    define j where "j = nat n"
    define ip where "ip = take j ts"
    define fp where "fp = drop j ts"
    have f: "formatDigits ts n = ip @ CHR ''.'' # fp"
      using B by (simp add: formatDigits_def Let_def k_def j_def ip_def fp_def)
    have d: "digitString ip" "digitString fp"
      unfolding ip_def fp_def
      by (rule digitString_subset [OF ts(1)], simp add: set_take_subset set_drop_subset)+
    have ne: "ip \<noteq> [] \<or> fp \<noteq> []" using ts(2) B by (simp add: ip_def j_def)
    have len: "int (length fp) = k - n" using nk B by (simp add: fp_def j_def k_def)
    then have "n - k = - int (length fp)" by simp
    then have p: "(10::real) powi (n - k) = 1 / 10 ^ length fp" by (simp only: pow10_neg)
    have "of_int (digitsValue 10 ip) + of_int (digitsValue 10 fp) / 10 ^ length fp
        = D / 10 ^ length fp"
      unfolding ip_def fp_def D_def by (rule digitsValue_split)
    then show ?thesis
      unfolding f decimalValue_digits(2) [OF d(1) d(2) d(1) ne] k_def [symmetric] p D_def
      by simp
  next
    case C
    define j where "j = nat (- n)"
    define fp where "fp = replicate j CHR ''0'' @ ts"
    have f: "formatDigits ts n = ''0'' @ CHR ''.'' # fp"
      using C by (simp add: formatDigits_def Let_def k_def j_def fp_def)
    have d: "digitString ''0''" "digitString fp"
      using digitString_zeros [of 1] ts(1) by (simp_all add: fp_def digitString_zeros)
    have v: "digitsValue 10 ''0'' = 0" "digitsValue 10 fp = digitsValue 10 ts"
      using digitsValue_zeros [of 1] by (simp_all add: fp_def digitsValue_append digitsValue_zeros)
    have "int (length fp) = k - n" using C by (simp add: fp_def j_def k_def)
    then have "n - k = - int (length fp)" by simp
    then have p: "(10::real) powi (n - k) = 1 / 10 ^ length fp" by (simp only: pow10_neg)
    have ne: "''0'' \<noteq> [] \<or> fp \<noteq> []" by simp
    show ?thesis
      unfolding f decimalValue_digits(2) [OF d(1) d(2) d(1) ne] v k_def [symmetric] p
      by simp
  next
    case D
    define neg where "neg = (n - 1 < 0)"
    define ed where "ed = decimalDigits \<bar>n - 1\<bar>"
    define sc where "sc = (if neg then CHR ''-'' else CHR ''+'')"
    have ded: "digitString ed" by (simp add: ed_def decimalDigits_digits)
    have ved: "digitsValue 10 ed = \<bar>n - 1\<bar>" by (simp add: ed_def digitsValue_decimalDigits)
    have E: "(if neg then - digitsValue 10 ed else digitsValue 10 ed) = n - 1"
      by (simp add: ved neg_def)
    have ex: "(if n - 1 < 0 then ''-'' else ''+'') @ decimalDigits \<bar>n - 1\<bar> = sc # ed"
      by (simp add: sc_def neg_def ed_def)
    have f0: "formatDigits ts n =
        (if k = 1 then ts @ CHR ''e'' # sc # ed
         else take 1 ts @ CHR ''.'' # drop 1 ts @ CHR ''e'' # sc # ed)"
    proof -
      have c: "(int (length ts) \<le> n \<and> n \<le> 21) = False" "(0 < n \<and> n \<le> 21) = False"
        "(- 6 < n \<and> n \<le> 0) = False"
        using D by (simp_all add: k_def)
      show ?thesis
        unfolding formatDigits_def Let_def c ex by (simp add: k_def)
    qed
    show ?thesis
    proof (cases "k = 1")
      case True
      have f: "formatDigits ts n = ts @ CHR ''e'' # sc # ed"
        unfolding f0 using True by simp
      show ?thesis
        unfolding f sc_def decimalValue_digits(3) [OF ts(1) ts(1) ded ts(2)] E
          k_def [symmetric] True
        by simp
    next
      case False
      define ip where "ip = take 1 ts"
      define fp where "fp = drop 1 ts"
      have f: "formatDigits ts n = ip @ CHR ''.'' # fp @ CHR ''e'' # sc # ed"
        unfolding f0 using False by (simp add: ip_def fp_def)
      have d: "digitString ip" "digitString fp"
        unfolding ip_def fp_def
        by (rule digitString_subset [OF ts(1)], simp add: set_take_subset set_drop_subset)+
      have ne: "ip \<noteq> [] \<or> fp \<noteq> []" using ts(2) by (simp add: ip_def)
      have len: "int (length fp) = k - 1" using k1 by (simp add: fp_def k_def)
      have M: "of_int (digitsValue 10 ip) + of_int (digitsValue 10 fp) / 10 ^ length fp
          = D / 10 ^ length fp"
        unfolding ip_def fp_def D_def by (rule digitsValue_split)
      have "(10::real) powi (- int (length fp)) * 10 powi (n - 1) = 10 powi (n - k)"
        unfolding pow10_add using len by simp
      then have p: "10 powi (n - 1) / (10::real) ^ length fp = 10 powi (n - k)"
        by (simp add: pow10_neg)
      have "D / 10 ^ length fp * 10 powi (n - 1) = D * (10 powi (n - 1) / 10 ^ length fp)"
        by simp
      then show ?thesis
        unfolding f sc_def decimalValue_digits(4) [OF d(1) d(2) ded ne] E M p
          k_def [symmetric] D_def
        by simp
    qed
  qed
qed

lemma formatDigits_digits:
  assumes ts: "digitString ts" "ts \<noteq> []" and n: "int (length ts) \<le> n" "n \<le> 21"
  shows "formatDigits ts n = ts @ replicate (nat (n - int (length ts))) CHR ''0''"
  using n by (simp add: formatDigits_def Let_def)

lemma formatDigits_plainText:
  assumes ts: "digitString ts"
  shows "plainText (formatDigits ts n)"
proof -
  have p: "plainText ts" by (rule digitString_plainText [OF ts])
  have q: "plainText (take j ts)" "plainText (drop j ts)" for j
    by (rule plainText_subset [OF p], simp add: set_take_subset set_drop_subset)+
  have z: "plainText (replicate j CHR ''0'')" for j
    by (rule digitString_plainText [OF digitString_zeros])
  have e: "plainText (decimalDigits \<bar>n - 1\<bar>)"
    by (rule digitString_plainText [OF decimalDigits_digits]) simp
  define k where "k = int (length ts)"
  consider (A) "k \<le> n" "n \<le> 21"
    | (B) "\<not> (k \<le> n \<and> n \<le> 21)" "0 < n" "n \<le> 21"
    | (C) "\<not> (k \<le> n \<and> n \<le> 21)" "\<not> (0 < n \<and> n \<le> 21)" "- 6 < n" "n \<le> 0"
    | (D) "\<not> (k \<le> n \<and> n \<le> 21)" "\<not> (0 < n \<and> n \<le> 21)" "\<not> (- 6 < n \<and> n \<le> 0)"
    by linarith
  then show ?thesis
  proof cases
    case A
    have "formatDigits ts n = ts @ replicate (nat (n - k)) CHR ''0''"
      using A by (simp add: formatDigits_def Let_def k_def)
    then show ?thesis using p z by simp
  next
    case B
    have "formatDigits ts n = take (nat n) ts @ CHR ''.'' # drop (nat n) ts"
      using B by (simp add: formatDigits_def Let_def k_def)
    then show ?thesis using q by simp
  next
    case C
    have "formatDigits ts n = ''0'' @ CHR ''.'' # replicate (nat (- n)) CHR ''0'' @ ts"
      using C by (simp add: formatDigits_def Let_def k_def)
    then show ?thesis using p z by simp
  next
    case D
    have c: "(int (length ts) \<le> n \<and> n \<le> 21) = False" "(0 < n \<and> n \<le> 21) = False"
      "(- 6 < n \<and> n \<le> 0) = False"
      using D by (simp_all add: k_def)
    have "formatDigits ts n =
        (if k = 1 then ts @ CHR ''e'' # (if n - 1 < 0 then ''-'' else ''+'') @ decimalDigits \<bar>n - 1\<bar>
         else take 1 ts @ CHR ''.'' # drop 1 ts
                @ CHR ''e'' # (if n - 1 < 0 then ''-'' else ''+'') @ decimalDigits \<bar>n - 1\<bar>)"
      unfolding formatDigits_def Let_def c by (simp add: k_def)
    then show ?thesis using p q [of 1] e by simp
  qed
qed

lemma formatDigits_head:
  assumes ts: "digitString ts" "ts \<noteq> []"
  shows "\<exists>d rest. 0 \<le> d \<and> d < 10 \<and> formatDigits ts n = digitChar d # rest"
proof -
  obtain c cs where tc: "ts = c # cs" using ts(2) by (cases ts) auto
  from ts(1) obtain d where d: "0 \<le> d" "d < 10" "c = digitChar d" by (auto simp: tc)
  have "(of_char CHR ''0'' :: int) = of_char (digitChar 0)" by (simp add: digitChar_def)
  then have z: "CHR ''0'' = digitChar 0" by (simp only: of_char_eq_iff)
  define k where "k = int (length ts)"
  consider (A) "k \<le> n" "n \<le> 21"
    | (B) "\<not> (k \<le> n \<and> n \<le> 21)" "0 < n" "n \<le> 21"
    | (C) "\<not> (k \<le> n \<and> n \<le> 21)" "\<not> (0 < n \<and> n \<le> 21)" "- 6 < n" "n \<le> 0"
    | (D) "\<not> (k \<le> n \<and> n \<le> 21)" "\<not> (0 < n \<and> n \<le> 21)" "\<not> (- 6 < n \<and> n \<le> 0)"
    by linarith
  then have "(\<exists>rest. formatDigits ts n = c # rest) \<or> (\<exists>rest. formatDigits ts n = CHR ''0'' # rest)"
  proof cases
    case A
    have "formatDigits ts n = ts @ replicate (nat (n - k)) CHR ''0''"
      using A by (simp add: formatDigits_def Let_def k_def)
    then show ?thesis unfolding tc by simp
  next
    case B
    obtain j where j: "nat n = Suc j" using B(2) by (cases "nat n") auto
    have "formatDigits ts n = take (nat n) ts @ CHR ''.'' # drop (nat n) ts"
      using B by (simp add: formatDigits_def Let_def k_def)
    then show ?thesis unfolding tc j by simp
  next
    case C
    have "formatDigits ts n = ''0'' @ CHR ''.'' # replicate (nat (- n)) CHR ''0'' @ ts"
      using C by (simp add: formatDigits_def Let_def k_def)
    then show ?thesis by simp
  next
    case D
    have c: "(int (length ts) \<le> n \<and> n \<le> 21) = False" "(0 < n \<and> n \<le> 21) = False"
      "(- 6 < n \<and> n \<le> 0) = False"
      using D by (simp_all add: k_def)
    have "formatDigits ts n =
        (if k = 1 then ts @ CHR ''e'' # (if n - 1 < 0 then ''-'' else ''+'') @ decimalDigits \<bar>n - 1\<bar>
         else take 1 ts @ CHR ''.'' # drop 1 ts
                @ CHR ''e'' # (if n - 1 < 0 then ''-'' else ''+'') @ decimalDigits \<bar>n - 1\<bar>)"
      unfolding formatDigits_def Let_def c by (simp add: k_def)
    then show ?thesis unfolding tc by (cases "k = 1") simp_all
  qed
  then show ?thesis
  proof
    assume "\<exists>rest. formatDigits ts n = c # rest"
    then show ?thesis using d by blast
  next
    assume "\<exists>rest. formatDigits ts n = CHR ''0'' # rest"
    then obtain rest where "formatDigits ts n = digitChar 0 # rest" unfolding z by blast
    moreover have "(0::int) \<le> 0" "(0::int) < 10" by simp_all
    ultimately show ?thesis by blast
  qed
qed

lemma strip_zeros:
  defines "P \<equiv> \<lambda>c. c = CHR ''0''"
  shows "ds = rev (dropWhile P (rev ds))
           @ replicate (length ds - length (rev (dropWhile P (rev ds)))) CHR ''0''"
proof -
  define zs where "zs = takeWhile P (rev ds)"
  define ts where "ts = rev (dropWhile P (rev ds))"
  have "rev ts = dropWhile P (rev ds)" by (simp add: ts_def)
  have "zs @ rev ts = rev ds" unfolding \<open>rev ts = dropWhile P (rev ds)\<close> zs_def
    by (rule takeWhile_dropWhile_id)
  then have "rev (zs @ rev ts) = rev (rev ds)" by (rule arg_cong)
  then have ds: "ds = ts @ rev zs" by simp
  have all: "\<forall>c\<in>set zs. c = CHR ''0''" unfolding zs_def P_def by (auto dest: set_takeWhileD)
  have rz: "replicate (length zs) CHR ''0'' = zs" by (rule replicate_length_same [OF all])
  have "length ds = length ts + length (rev zs)" by (subst ds) simp
  then have len: "length zs = length ds - length ts" by simp
  have "rev zs = rev (replicate (length zs) CHR ''0'')" by (simp only: rz)
  also have "\<dots> = replicate (length zs) CHR ''0''" by (rule rev_replicate)
  finally have rest: "rev zs = replicate (length ds - length ts) CHR ''0''" by (simp only: len)
  show ?thesis unfolding ts_def [symmetric] rest [symmetric] by (rule ds)
qed

text \<open>
  The text of a double reads back as the double with \<^verbatim>\<open>parseFloat\<close>; the text of a
  whole double below 1e21 in size is made of digits only and reads back with
  \<^verbatim>\<open>parseInt\<close>.
\<close>

lemma parseFloat_head:
  assumes d: "0 \<le> d" "d < 10"
  shows "parseFloat (digitChar d # rest)
           = (case decimalValue (digitChar d # rest) of None \<Rightarrow> None | Some u \<Rightarrow> toDouble u)"
    and "parseFloat (CHR ''-'' # digitChar d # rest)
           = (case decimalValue (digitChar d # rest) of None \<Rightarrow> None | Some u \<Rightarrow> toDouble (- u))"
proof -
  note plain = digitChar_plain [OF d]
  have dw: "dropWhile isWhiteSpace (digitChar d # rest) = digitChar d # rest"
    using plain(8) by simp
  have rs: "readSign (digitChar d # rest) = (1, digitChar d # rest)"
    using plain(3,4) by (simp add: readSign_def)
  have dw': "dropWhile isWhiteSpace (CHR ''-'' # digitChar d # rest) = CHR ''-'' # digitChar d # rest"
    by (simp add: isWhiteSpace_def)
  show "parseFloat (digitChar d # rest)
           = (case decimalValue (digitChar d # rest) of None \<Rightarrow> None | Some u \<Rightarrow> toDouble u)"
    unfolding parseFloat_def dw rs by (simp split: option.splits)
  show "parseFloat (CHR ''-'' # digitChar d # rest)
           = (case decimalValue (digitChar d # rest) of None \<Rightarrow> None | Some u \<Rightarrow> toDouble (- u))"
    unfolding parseFloat_def dw' readSign_simps by (simp split: option.splits)
qed

lemma isDouble_abs: "isDouble x \<Longrightarrow> isDouble \<bar>x\<bar>"
  by (cases "x < 0") (simp_all add: isDouble_def abs_if toDouble_minus)

lemma shortestDigits_nonneg: "0 < m \<Longrightarrow> 0 \<le> fst (shortestDigits m n k fuel)"
proof (induction fuel arbitrary: k)
  case 0
  have "0 \<le> m * 10 powi (int k - n)" using 0 by simp
  then have "0 \<le> \<lfloor>m * 10 powi (int k - n)\<rfloor>" by simp
  then show ?case using roundEven_cases [of "m * 10 powi (int k - n)"] by (auto simp: scale_10)
next
  case (Suc fuel)
  have "0 \<le> m * 10 powi (int k - n)" using Suc.prems by simp
  then have "0 \<le> \<lfloor>m * 10 powi (int k - n)\<rfloor>" by simp
  then show ?case
    using roundEven_cases [of "m * 10 powi (int k - n)"] Suc.IH [OF Suc.prems, of "Suc k"]
    by (auto simp: scale_10 Let_def)
qed

lemma stripped_digits:
  fixes s :: int
  assumes s: "0 < s"
  defines "ds \<equiv> decimalDigits s"
  defines "ts \<equiv> rev (dropWhile (\<lambda>c. c = CHR ''0'') (rev ds))"
  shows "digitString ts" "ts \<noteq> []" "length ts \<le> length ds"
    and "(of_int (digitsValue 10 ts) :: real) * 10 powi (int (length ds) + e - int (length ts))
           = decimal s e"
proof -
  define z where "z = length ds - length ts"
  have ds: "ds = ts @ replicate z CHR ''0''"
    unfolding z_def ts_def by (rule strip_zeros)
  have dd: "digitString ds" using s by (simp add: ds_def decimalDigits_digits)
  then show dt: "digitString ts" by (subst (asm) ds) simp
  have v: "digitsValue 10 ds = s" using s by (simp add: ds_def digitsValue_decimalDigits)
  have "digitsValue 10 ds = digitsValue 10 ts * 10 ^ z"
    by (subst ds) (simp add: digitsValue_append digitsValue_zeros)
  then have vt: "s = digitsValue 10 ts * 10 ^ z" using v by simp
  show "ts \<noteq> []"
  proof
    assume "ts = []"
    then have "s = 0" using vt by simp
    then show False using s by simp
  qed
  have "length ds = length ts + z" by (subst ds) simp
  then show "length ts \<le> length ds" by simp
  have "int (length ds) + e - int (length ts) = int z + e"
    using \<open>length ds = length ts + z\<close> by simp
  then have "(10::real) powi (int (length ds) + e - int (length ts)) = 10 ^ z * 10 powi e"
    by (simp only: pow10_add [symmetric] power_int_of_nat)
  then show "(of_int (digitsValue 10 ts) :: real) * 10 powi (int (length ds) + e - int (length ts))
           = decimal s e"
    by (simp add: decimal_def scale_10 vt)
qed

lemma numToString_0: "numToString 0 = ''0''"
  by (simp add: numToString_def toDouble_def)

lemma numToString_unfold:
  assumes "toDouble x = Some v" "v \<noteq> 0"
    and "shortestDigits \<bar>v\<bar> (ilog 10 \<bar>v\<bar> + 1) 1 16 = (s, e)"
  shows "numToString x = (if v < 0 then ''-'' else [])
               @ formatDigits (rev (dropWhile (\<lambda>c. c = CHR ''0'') (rev (decimalDigits s))))
                   (int (length (decimalDigits s)) + e)"
  unfolding numToString_def assms(1) option.case Let_def assms(3) prod.case
  using assms(2) by simp

lemma numToString_double:
  assumes x: "isDouble x" "x \<noteq> 0"
  shows "\<exists>s e. shortestDigits \<bar>x\<bar> (ilog 10 \<bar>x\<bar> + 1) 1 16 = (s, e)
           \<and> numToString x = (if x < 0 then ''-'' else [])
               @ formatDigits (rev (dropWhile (\<lambda>c. c = CHR ''0'') (rev (decimalDigits s))))
                   (int (length (decimalDigits s)) + e)"
proof -
  obtain s e where se: "shortestDigits \<bar>x\<bar> (ilog 10 \<bar>x\<bar> + 1) 1 16 = (s, e)"
    by (cases "shortestDigits \<bar>x\<bar> (ilog 10 \<bar>x\<bar> + 1) 1 16") auto
  have "toDouble x = Some x" using x(1) by (simp add: isDouble_def)
  then have "numToString x = (if x < 0 then ''-'' else [])
               @ formatDigits (rev (dropWhile (\<lambda>c. c = CHR ''0'') (rev (decimalDigits s))))
                   (int (length (decimalDigits s)) + e)"
    using x(2) se by (rule numToString_unfold)
  with se show ?thesis by blast
qed

lemma numToString_plainText: "plainText (numToString x)"
proof (cases "toDouble x")
  case None
  then show ?thesis by (simp add: numToString_def)
next
  case (Some v)
  show ?thesis
  proof (cases "v = 0")
    case True
    then show ?thesis using Some by (simp add: numToString_def)
  next
    case False
    obtain s e where se: "shortestDigits \<bar>v\<bar> (ilog 10 \<bar>v\<bar> + 1) 1 16 = (s, e)"
      by (cases "shortestDigits \<bar>v\<bar> (ilog 10 \<bar>v\<bar> + 1) 1 16") auto
    have "0 \<le> fst (shortestDigits \<bar>v\<bar> (ilog 10 \<bar>v\<bar> + 1) 1 16)"
      by (rule shortestDigits_nonneg) (use False in simp)
    then have s: "0 \<le> s" unfolding se by simp
    define ds where "ds = decimalDigits s"
    define ts where "ts = rev (dropWhile (\<lambda>c. c = CHR ''0'') (rev ds))"
    have "digitString ds" using s by (simp add: ds_def decimalDigits_digits)
    moreover have "set ts \<subseteq> set ds" unfolding ts_def using set_dropWhileD by fastforce
    ultimately have "digitString ts" by (rule digitString_subset)
    then have "plainText (formatDigits ts (int (length ds) + e))" by (rule formatDigits_plainText)
    then show ?thesis
      unfolding numToString_unfold [OF Some False se] ds_def ts_def by simp
  qed
qed

lemma parseFloat_numToString:
  assumes x: "isDouble x"
  shows "parseFloat (numToString x) = Some x"
proof (cases "x = 0")
  case True
  have "digitString ''0''" using digitString_zeros [of 1] by simp
  then have "decimalValue ''0'' = Some (of_int (digitsValue 10 ''0''))"
    by (rule decimalValue_digits(1) [OF _ _ _, of "''0''" "[]" "[]"]) simp_all
  moreover have "digitsValue 10 ''0'' = 0" using digitsValue_zeros [of 1] by simp
  ultimately have "decimalValue ''0'' = Some 0" by simp
  moreover have z: "(of_char CHR ''0'' :: int) = of_char (digitChar 0)" by (simp add: digitChar_def)
  then have "''0'' = [digitChar 0]" by (simp only: of_char_eq_iff)
  ultimately have "parseFloat ''0'' = toDouble 0"
    using parseFloat_head(1) [of 0 "[]"] by simp
  then show ?thesis by (simp add: True numToString_0 toDouble_def)
next
  case False
  define m where "m = \<bar>x\<bar>"
  have m: "isDouble m" "0 < m" using x False by (simp_all add: m_def isDouble_abs)
  from numToString_double [OF x False] obtain s e where
    se: "shortestDigits m (ilog 10 m + 1) 1 16 = (s, e)" and
    str: "numToString x = (if x < 0 then ''-'' else [])
               @ formatDigits (rev (dropWhile (\<lambda>c. c = CHR ''0'') (rev (decimalDigits s))))
                   (int (length (decimalDigits s)) + e)"
    unfolding m_def by blast
  define ts where "ts = rev (dropWhile (\<lambda>c. c = CHR ''0'') (rev (decimalDigits s)))"
  define n where "n = int (length (decimalDigits s)) + e"
  from shortestDigits_sound [OF m refl _ _ se]
  have td: "toDouble (decimal s e) = Some m" and s: "0 < s" by simp_all
  note st = stripped_digits(1-3) [OF s, folded ts_def]
    stripped_digits(4) [OF s, of e, folded ts_def, folded n_def]
  have val: "decimalValue (formatDigits ts n) = Some (decimal s e)"
    using formatDigits_value [OF st(1,2), of n] st(4) by simp
  from formatDigits_head [OF st(1,2), of n] obtain d rest where
    d: "0 \<le> d" "d < 10" and f: "formatDigits ts n = digitChar d # rest" by blast
  show ?thesis
  proof (cases "x < 0")
    case True
    have "parseFloat (numToString x) = toDouble (- decimal s e)"
      using parseFloat_head(2) [OF d, of rest] val True
      by (simp add: str ts_def [symmetric] n_def [symmetric] f)
    also have "\<dots> = Some (- m)" by (simp add: toDouble_minus td)
    finally show ?thesis using True by (simp add: m_def)
  next
    case False
    have "parseFloat (numToString x) = toDouble (decimal s e)"
      using parseFloat_head(1) [OF d, of rest] val False
      by (simp add: str ts_def [symmetric] n_def [symmetric] f)
    then show ?thesis using False by (simp add: td m_def)
  qed
qed

lemma toDouble_1e21: "toDouble (10 ^ 21) = Some (10 ^ 21)"
  by code_simp

lemma parseInt_numToString:
  assumes "wholeNumber x"
  shows "parseInt (numToString x) = Some x"
proof (cases "x = 0")
  case True
  have d: "digitString ''0''" using digitString_zeros [of 1] by simp
  have "digitsValue 10 ''0'' = 0" using digitsValue_zeros [of 1] by simp
  then have "parseInt ''0'' = toDouble 0" using parseInt_digits(1) [OF d] by simp
  then show ?thesis by (simp add: True numToString_0 toDouble_def)
next
  case False
  from assms have x: "isDouble x" and whole: "x = of_int \<lfloor>x\<rfloor>" and small: "\<bar>x\<bar> < 10 ^ 21"
    by (simp_all add: wholeNumber_def)
  define m where "m = \<bar>x\<bar>"
  define z where "z = \<bar>\<lfloor>x\<rfloor>\<bar>"
  have mz: "m = of_int z" unfolding m_def z_def by (subst whole) simp
  have m: "isDouble m" "0 < m" using x False by (simp_all add: m_def isDouble_abs)
  have "0 < z" using m(2) unfolding mz by simp
  then have "1 \<le> z" by simp
  then have m1: "1 \<le> m" unfolding mz by simp
  have m21: "m < 10 ^ 21" using small by (simp add: m_def)
  define n where "n = ilog 10 m + 1"
  have lo: "10 powi (n - 1) \<le> m" and hi: "m < 10 powi n"
    using decimal_order [OF m] by (simp_all add: n_def)
  have n1: "1 \<le> n"
  proof (rule ccontr)
    assume "\<not> 1 \<le> n"
    then have "(10::real) powi n \<le> 10 powi 0" by (intro power_int_increasing) simp_all
    then show False using hi m1 by simp
  qed
  have n21: "n \<le> 21"
  proof (rule ccontr)
    assume "\<not> n \<le> 21"
    then have "(10::real) powi 21 \<le> 10 powi (n - 1)" by (intro power_int_increasing) simp_all
    then show False using lo m21 by simp
  qed
  from numToString_double [OF x False] obtain s e where
    se: "shortestDigits m n 1 16 = (s, e)" and
    str: "numToString x = (if x < 0 then ''-'' else [])
               @ formatDigits (rev (dropWhile (\<lambda>c. c = CHR ''0'') (rev (decimalDigits s))))
                   (int (length (decimalDigits s)) + e)"
    unfolding m_def n_def by blast
  define ts where "ts = rev (dropWhile (\<lambda>c. c = CHR ''0'') (rev (decimalDigits s)))"
  define L where "L = length (decimalDigits s)"
  from shortestDigits_sound [OF m n_def _ _ se]
  have td: "toDouble (decimal s e) = Some m" and s: "0 < s"
    and up: "decimal s e \<le> 10 powi n" and e17: "n - 17 \<le> e"
    by simp_all
  note st = stripped_digits(1-3) [OF s, folded ts_def, folded L_def]
    stripped_digits(4) [OF s, of e, folded ts_def, folded L_def]
  have e0: "0 \<le> e"
  proof (cases "17 \<le> n")
    case True
    then show ?thesis using e17 by simp
  next
    case False
    define k0 where "k0 = nat n"
    have k0: "int k0 = n" "1 \<le> k0" using n1 by (simp_all add: k0_def)
    have "decimal \<lfloor>m * 10 powi (int k0 - n)\<rfloor> (n - int k0) = m"
      unfolding k0(1) by (simp add: decimal_def scale_10 mz)
    then have "toDouble (decimal \<lfloor>m * 10 powi (int k0 - n)\<rfloor> (n - int k0)) = Some m"
      using m(1) by (simp add: isDouble_def)
    from shortestDigits_stops [OF k0(2) this, of 16]
    show ?thesis unfolding se k0(1) by simp
  qed
  have dlt: "decimal s e < 10 ^ 21"
  proof -
    have "(10::real) powi n \<le> 10 powi 21" using n21 by (intro power_int_increasing) simp_all
    then have le: "decimal s e \<le> 10 ^ 21" using up by simp
    have "decimal s e \<noteq> 10 ^ 21"
    proof
      assume "decimal s e = 10 ^ 21"
      then have "m = 10 ^ 21" using td toDouble_1e21 by simp
      then show False using m21 by simp
    qed
    then show ?thesis using le by simp
  qed
  have L1: "1 \<le> L" using decimalDigits_nonempty [of s] by (cases "decimalDigits s") (simp_all add: L_def)
  have Le: "int L + e \<le> 21"
  proof (rule ccontr)
    assume "\<not> int L + e \<le> 21"
    then have "(10::real) powi 21 \<le> 10 powi (int (L - 1) + e)"
      using L1 by (intro power_int_increasing) simp_all
    also have "\<dots> = 10 ^ (L - 1) * 10 powi e"
      by (simp only: pow10_add [symmetric] power_int_of_nat)
    also have "\<dots> \<le> of_int s * 10 powi e"
    proof (rule mult_right_mono)
      have "10 ^ (L - 1) \<le> s" using length_decimalDigits [OF s] by (simp add: L_def)
      then have "(of_int (10 ^ (L - 1)) :: real) \<le> of_int s" by (simp only: of_int_le_iff)
      then show "(10::real) ^ (L - 1) \<le> of_int s" by simp
      show "(0::real) \<le> 10 powi e" by simp
    qed
    finally show False using dlt by (simp add: decimal_def scale_10)
  qed
  define j where "j = nat (int L + e - int (length ts))"
  define F where "F = ts @ replicate j CHR ''0''"
  have tsn: "int (length ts) \<le> int L + e" using st(3) e0 by simp
  have fmt: "formatDigits ts (int L + e) = F"
    unfolding F_def j_def by (rule formatDigits_digits [OF st(1,2) tsn Le])
  have dF: "digitString F" "F \<noteq> []" using st(1,2) by (simp_all add: F_def digitString_zeros)
  have "int (L) + e - int (length ts) = int j" using tsn by (simp add: j_def)
  then have "(10::real) powi (int L + e - int (length ts)) = 10 ^ j" by simp
  then have "(of_int (digitsValue 10 ts * 10 ^ j) :: real) = decimal s e"
    using st(4) by simp
  moreover have "digitsValue 10 F = digitsValue 10 ts * 10 ^ j"
    by (simp add: F_def digitsValue_append digitsValue_zeros)
  ultimately have vF: "(of_int (digitsValue 10 F) :: real) = decimal s e" by simp
  show ?thesis
  proof (cases "x < 0")
    case True
    have "parseInt (numToString x) = toDouble (- decimal s e)"
      using parseInt_digits(2) [OF dF] True
      by (simp add: str ts_def [symmetric] L_def [symmetric] fmt vF)
    also have "\<dots> = Some (- m)" by (simp add: toDouble_minus td)
    finally show ?thesis using True by (simp add: m_def)
  next
    case False
    have "parseInt (numToString x) = toDouble (decimal s e)"
      using parseInt_digits(1) [OF dF] False
      by (simp add: str ts_def [symmetric] L_def [symmetric] fmt vF)
    then show ?thesis using False by (simp add: td m_def)
  qed
qed

lemma wholeNumber_of_int: "\<bar>z\<bar> < 2 ^ 53 \<Longrightarrow> wholeNumber (of_int z)"
proof -
  assume z: "\<bar>z\<bar> < 2 ^ 53"
  then have "\<bar>z\<bar> < 10 ^ 21" by simp
  then have "(of_int \<bar>z\<bar> :: real) < of_int (10 ^ 21)" by (simp only: of_int_less_iff)
  then show ?thesis using int_isDouble [OF z] by (simp add: wholeNumber_def)
qed

section \<open>Splitting\<close>

lemma String_split_append:
  "sep \<notin> set xs \<Longrightarrow> String_split sep (xs @ sep # ys) = xs # String_split sep ys"
  by (induction xs) auto

lemma String_split_plain: "sep \<notin> set xs \<Longrightarrow> String_split sep xs = [xs]"
  by (induction xs) auto

lemma String_split_groups:
  assumes "\<forall>x\<in>set gs. sep \<notin> set x"
  shows "String_split sep (concat (map (\<lambda>x. x @ [sep]) gs)) = gs @ [[]]"
  using assms by (induction gs) (simp_all add: String_split_append)

lemma plainTextD: "plainText s \<Longrightarrow> CHR '';'' \<notin> set s \<and> CHR '','' \<notin> set s"
  by (auto simp: plainText_def)

lemma pixelGroup_no_semicolon: "CHR '';'' \<notin> set (pixelGroup c)"
  using plainTextD [OF numToString_plainText] by (simp add: pixelGroup_def)

lemma String_split_pixelGroup:
  "String_split CHR '','' (pixelGroup c) =
     [numToString (r c), numToString (g c), numToString (b c), numToString (a c)]"
proof -
  have p: "CHR '','' \<notin> set (numToString x)" for x
    using plainTextD [OF numToString_plainText] by simp
  show ?thesis
    unfolding pixelGroup_def
    by (simp add: String_split_append [OF p] String_split_plain [OF p])
qed

section \<open>The text of a surface\<close>

lemma forE_collect:
  assumes "\<And>i s. i \<in> set xs \<Longrightarrow> body i s = Inr (s @ f i)"
  shows "forE xs body s = Inr (s @ concat (map f xs))"
  using assms by (induction xs arbitrary: s) simp_all

lemma concat_rowMajor:
  "concat (map (\<lambda>y. concat (map (\<lambda>x. f x y) xs)) ys)
     = concat (map (\<lambda>(x, y). f x y) (concat (map (\<lambda>y. map (\<lambda>x. (x, y)) xs) ys)))"
  by (induction ys) (simp_all add: comp_def)

lemma imageToString_text:
  assumes "\<And>x y. 0 \<le> x \<Longrightarrow> x < getWidth w v \<Longrightarrow> 0 \<le> y \<Longrightarrow> y < getHeight w v
             \<Longrightarrow> getColor w v x y \<noteq> None"
  shows "MinimalView_imageToString w v =
           Inr (numToString (of_int (getWidth w v)) @ '';''
                @ numToString (of_int (getHeight w v)) @ '';''
                @ concat (map (\<lambda>x. x @ '';'')
                    (map (\<lambda>(x, y). pixelGroup (heap w (the (getColor w v x y))))
                         (rowMajor (getWidth w v) (getHeight w v)))))"
proof -
  let ?G = "\<lambda>x y. pixelGroup (heap w (the (getColor w v x y))) @ '';''"
  have cell: "imageToString_at w v y x s = Inr (s @ ?G x y)"
    if "x \<in> set [0..getWidth w v - 1]" "y \<in> set [0..getHeight w v - 1]" for x y s
  proof -
    from that have "getColor w v x y \<noteq> None" by (intro assms) auto
    then show ?thesis by (auto simp: imageToString_at_def)
  qed
  have row: "forE [0..getWidth w v - 1] (imageToString_at w v y) s
               = Inr (s @ concat (map (\<lambda>x. ?G x y) [0..getWidth w v - 1]))"
    if "y \<in> set [0..getHeight w v - 1]" for y s
    by (rule forE_collect) (rule cell [OF _ that])
  have "MinimalView_imageToString w v =
      Inr ((numToString (of_int (getWidth w v)) @ '';''
            @ numToString (of_int (getHeight w v)) @ '';'')
           @ concat (map (\<lambda>y. concat (map (\<lambda>x. ?G x y) [0..getWidth w v - 1]))
                         [0..getHeight w v - 1]))"
    unfolding MinimalView_imageToString_def
    by (subst forE_collect [where f = "\<lambda>y. concat (map (\<lambda>x. ?G x y) [0..getWidth w v - 1])"])
       (simp_all add: row)
  then show ?thesis
    unfolding concat_rowMajor rowMajor_def by (simp add: map_concat comp_def case_prod_beta)
qed

section \<open>Row-major positions\<close>

lemma upto_snoc: "0 \<le> n \<Longrightarrow> [0..n] = [0..n - 1] @ [n]"
  by (rule upto_rec2) simp

lemma length_upto_0: "length [0..n - 1] = nat n"
  by simp

lemma rowMajor_Suc:
  "rowMajor W (int h + 1) = rowMajor W (int h) @ map (\<lambda>x. (x, int h)) [0..W - 1]"
proof -
  have "[0..int h + 1 - 1] = [0..int h - 1] @ [int h]"
    using upto_snoc [of "int h"] by simp
  then show ?thesis by (simp add: rowMajor_def)
qed

lemma length_rowMajor: "length (rowMajor W (int h)) = h * nat W"
proof (induction h)
  case 0
  then show ?case by (simp add: rowMajor_def)
next
  case (Suc h)
  have "int (Suc h) = int h + 1" by simp
  then show ?case using Suc by (simp only: rowMajor_Suc) simp
qed

lemma rowMajor_nth:
  assumes "x < nat W" "y < h"
  shows "rowMajor W (int h) ! (y * nat W + x) = (int x, int y)"
  using assms(2)
proof (induction h)
  case 0
  then show ?case by simp
next
  case (Suc h)
  have suc: "int (Suc h) = int h + 1" by simp
  show ?case
  proof (cases "y < h")
    case True
    have "y * nat W + x < h * nat W"
    proof -
      have "Suc y * nat W \<le> h * nat W" using True by (intro mult_le_mono1) simp
      then show ?thesis using assms(1) by simp
    qed
    then show ?thesis
      using Suc.IH [OF True] unfolding suc rowMajor_Suc
      by (simp add: nth_append length_rowMajor)
  next
    case False
    with Suc.prems have y: "y = h" by simp
    have "[0..W - 1] ! x = int x" using assms(1) by (simp add: nth_upto)
    then show ?thesis
      using assms(1) unfolding suc rowMajor_Suc
      by (simp add: nth_append length_rowMajor y)
  qed
qed

lemma position_unique:
  fixes W :: int
  assumes "j mod W = k mod W" "j div W = k div W"
  shows "j = k"
proof -
  have "j = W * (j div W) + j mod W" by simp
  also have "\<dots> = W * (k div W) + k mod W" by (simp only: assms)
  also have "\<dots> = k" by simp
  finally show ?thesis .
qed

lemma position_next:
  fixes W k :: int
  assumes W: "0 < W" and k: "0 \<le> k"
  shows "int_rem (k mod W + 1) W = 0 \<Longrightarrow> (k + 1) mod W = 0 \<and> (k + 1) div W = k div W + 1"
    and "int_rem (k mod W + 1) W \<noteq> 0 \<Longrightarrow>
           (k + 1) mod W = k mod W + 1 \<and> (k + 1) div W = k div W"
proof -
  have m: "0 \<le> k mod W" "k mod W < W" using W by simp_all
  have rem: "int_rem (k mod W + 1) W = (k mod W + 1) mod W"
    using m W by (simp add: int_rem_def)
  have dec: "k + 1 = W * (k div W) + (k mod W + 1)" by simp
  have small: "(k mod W + 1) mod W = k mod W + 1" if "k mod W + 1 < W"
    using that m by simp
  {
    assume "int_rem (k mod W + 1) W = 0"
    then have "\<not> k mod W + 1 < W" using small rem m by auto
    then have top: "k mod W + 1 = W" using m by simp
    have "k + 1 = W * (k div W) + W" using dec top by simp
    then have e: "k + 1 = W * (k div W + 1) + 0" by (simp add: distrib_left)
    have "(k + 1) div W = k div W + 1" by (rule int_div_pos_eq [OF e]) (use W in simp_all)
    moreover have "(k + 1) mod W = 0" by (rule int_mod_pos_eq [OF e]) (use W in simp_all)
    ultimately show "(k + 1) mod W = 0 \<and> (k + 1) div W = k div W + 1" by simp
  }
  {
    assume "int_rem (k mod W + 1) W \<noteq> 0"
    then have "k mod W + 1 \<noteq> W" using rem by auto
    then have lt: "k mod W + 1 < W" using m by simp
    have nn: "0 \<le> k mod W + 1" using m by simp
    have "(k + 1) div W = k div W" by (rule int_div_pos_eq [OF dec nn lt])
    moreover have "(k + 1) mod W = k mod W + 1" by (rule int_mod_pos_eq [OF dec nn lt])
    ultimately show "(k + 1) mod W = k mod W + 1 \<and> (k + 1) div W = k div W" by simp
  }
qed

section \<open>Loading\<close>

lemma forE_snoc:
  "forE (xs @ [i]) body s = (case forE xs body s of Inl e \<Rightarrow> Inl e | Inr t \<Rightarrow> body i t)"
  by (induction xs arbitrary: s) (auto split: sum.splits)

lemma inside_setColor [simp]: "inside (setColor w v x y c) u x' y' = inside w u x' y'"
proof (cases "setColor w v x y c = w")
  case True
  then show ?thesis by simp
next
  case False
  then obtain p where c: "c = Some p" by (cases c) (auto simp: setColor_def)
  from False have ok: "0 \<le> x" "0 \<le> y" "y < int (length (colors (views w v)))"
    by (auto simp: setColor_def c Let_def split: if_splits)
  show ?thesis
  proof (cases "u = v")
    case u: False
    then show ?thesis using False by (auto simp: setColor_def inside_def c Let_def)
  next
    case u: True
    show ?thesis
      using False ok unfolding u
      by (cases "nat y' = nat y")
         (auto simp: setColor_def inside_def c Let_def nth_list_update)
  qed
qed

lemma inside_views: "views w1 = views w \<Longrightarrow> inside w1 v x y = inside w v x y"
  by (simp add: inside_def)

lemma getColor_setColor_same:
  assumes "inside w v x y"
  shows "getColor (setColor w v x y (Some p)) v x y = Some p"
  using assms by (auto simp: inside_def setColor_def getColor_def Let_def)

lemma imageFromString_at_step:
  assumes W: "0 < W"
    and c: "serializable c"
    and d: "data ! nat (int k + 2) = pixelGroup c"
  shows "imageFromString_at tgt data W (int k) (int k mod W, int k div W, wk)
           = Inr (int (Suc k) mod W, int (Suc k) div W,
                  setColor (snd (alloc wk (Color (r c) (g c) (b c) (Some (a c)) None)))
                           tgt (int k mod W) (int k div W) (Some (fresh wk)))"
proof -
  from c have p: "parseInt (numToString (r c)) = Some (r c)"
    "parseInt (numToString (g c)) = Some (g c)" "parseInt (numToString (b c)) = Some (b c)"
    "parseFloat (numToString (a c)) = Some (a c)"
    by (simp_all add: serializable_def parseInt_numToString parseFloat_numToString)
  have nn: "''null'' \<noteq> numToString (r c)"
    using p(1) parseInt_null by auto
  have suc: "int (Suc k) = int k + 1" by simp
  note nx = position_next [OF W, of "int k"]
  show ?thesis
  proof (cases "int_rem (int k mod W + 1) W = 0")
    case True
    with nx(1) have "(int k + 1) mod W = 0 \<and> (int k + 1) div W = int k div W + 1" by simp
    then show ?thesis
      unfolding suc
      by (simp add: imageFromString_at_def d String_split_pixelGroup p nn Let_def alloc_def True)
  next
    case False
    with nx(2) have "(int k + 1) mod W = int k mod W + 1 \<and> (int k + 1) div W = int k div W"
      by simp
    then show ?thesis
      unfolding suc
      by (simp add: imageFromString_at_def d String_split_pixelGroup p nn Let_def alloc_def False)
  qed
qed

lemma load_loop:
  assumes W: "0 < W"
    and cs: "\<And>j. j < n \<Longrightarrow> serializable (cs ! j) \<and> data ! nat (int j + 2) = pixelGroup (cs ! j)
                       \<and> inside w tgt (int j mod W) (int j div W)"
    and k: "k \<le> n"
  shows "\<exists>wk. forE [0..int k - 1] (imageFromString_at tgt data W) (0, 0, w)
                 = Inr (int k mod W, int k div W, wk)
            \<and> fresh wk = fresh w + k
            \<and> (\<forall>x y. inside wk tgt x y = inside w tgt x y)
            \<and> (\<forall>j<k. getColor wk tgt (int j mod W) (int j div W) = Some (fresh w + j)
                     \<and> heap wk (fresh w + j)
                         = Color (r (cs ! j)) (g (cs ! j)) (b (cs ! j)) (Some (a (cs ! j))) None)"
  using k
proof (induction k)
  case 0
  then show ?case by simp
next
  case (Suc k)
  then have kn: "k < n" by simp
  from Suc.IH kn obtain wk where
    run: "forE [0..int k - 1] (imageFromString_at tgt data W) (0, 0, w)
            = Inr (int k mod W, int k div W, wk)"
    and fr: "fresh wk = fresh w + k"
    and ins: "\<And>x y. inside wk tgt x y = inside w tgt x y"
    and old: "\<And>j. j < k \<Longrightarrow> getColor wk tgt (int j mod W) (int j div W) = Some (fresh w + j)
        \<and> heap wk (fresh w + j)
            = Color (r (cs ! j)) (g (cs ! j)) (b (cs ! j)) (Some (a (cs ! j))) None"
    by auto
  let ?c = "Color (r (cs ! k)) (g (cs ! k)) (b (cs ! k)) (Some (a (cs ! k))) None"
  let ?w1 = "snd (alloc wk ?c)"
  let ?w2 = "setColor ?w1 tgt (int k mod W) (int k div W) (Some (fresh wk))"
  have v1: "views ?w1 = views wk" by (simp add: alloc_def)
  have step: "imageFromString_at tgt data W (int k) (int k mod W, int k div W, wk)
      = Inr (int (Suc k) mod W, int (Suc k) div W, ?w2)"
    using cs [OF kn] by (intro imageFromString_at_step [OF W]) simp_all
  have list: "[0..int (Suc k) - 1] = [0..int k - 1] @ [int k]"
    using upto_snoc [of "int k"] by simp
  have 1: "forE [0..int (Suc k) - 1] (imageFromString_at tgt data W) (0, 0, w)
      = Inr (int (Suc k) mod W, int (Suc k) div W, ?w2)"
    unfolding list forE_snoc run by (simp add: step)
  have 2: "fresh ?w2 = fresh w + Suc k" by (simp add: alloc_def fr)
  have 3: "inside ?w2 tgt x y = inside w tgt x y" for x y
    by (simp add: inside_views [OF v1] ins)
  have here: "inside ?w1 tgt (int k mod W) (int k div W)"
    using cs [OF kn] by (simp add: inside_views [OF v1] ins)
  have 4: "getColor ?w2 tgt (int j mod W) (int j div W) = Some (fresh w + j)
      \<and> heap ?w2 (fresh w + j)
          = Color (r (cs ! j)) (g (cs ! j)) (b (cs ! j)) (Some (a (cs ! j))) None"
    if "j < Suc k" for j
  proof (cases "j = k")
    case True
    show ?thesis
      unfolding True using getColor_setColor_same [OF here] by (simp add: alloc_def fr)
  next
    case False
    with that have jk: "j < k" by simp
    have "int j \<noteq> int k" using False by simp
    then have "int j mod W \<noteq> int k mod W \<or> int j div W \<noteq> int k div W"
      using position_unique [of "int j" W "int k"] by blast
    then have "getColor ?w2 tgt (int j mod W) (int j div W)
        = getColor ?w1 tgt (int j mod W) (int j div W)"
      by (intro getColor_setColor_other) blast
    also have "\<dots> = getColor wk tgt (int j mod W) (int j div W)"
      by (rule getColor_views [OF v1])
    finally show ?thesis using old [OF jk] jk by (simp add: alloc_def fr)
  qed
  show ?case using 1 2 3 4 by blast
qed

text \<open>
  C7, as the code has it. Let a surface have no absent pixel, every color with whole
  r, g, b below 1e21 in size and an alpha that is a finite number, and let the target
  have the same width and height, a cell at every coordinate, and fewer than 2^32 rows
  and columns (the bound on an array). Then \<^verbatim>\<open>imageToString\<close> returns a string,
  \<^verbatim>\<open>imageFromString\<close> applied to it on the target returns, and every pixel of the
  target is then a new color with the r, g, b and alpha of the pixel of the original
  surface at the same coordinate (in 255-mode and not transparent, as the constructor
  leaves it).
\<close>

theorem imageFromString_imageToString:
  assumes dims: "getWidth w tgt = getWidth w src" "getHeight w tgt = getHeight w src"
    and size: "getWidth w src < 2 ^ 32" "getHeight w src < 2 ^ 32"
    and src: "\<And>i j. 0 \<le> i \<Longrightarrow> i < getWidth w src \<Longrightarrow> 0 \<le> j \<Longrightarrow> j < getHeight w src
                \<Longrightarrow> \<exists>p. getColor w src i j = Some p \<and> serializable (heap w p)"
    and tgt: "\<And>i j. 0 \<le> i \<Longrightarrow> i < getWidth w src \<Longrightarrow> 0 \<le> j \<Longrightarrow> j < getHeight w src
                \<Longrightarrow> inside w tgt i j"
    and xy: "0 \<le> x" "x < getWidth w src" "0 \<le> y" "y < getHeight w src"
  shows "\<exists>s w' p q.
           MinimalView_imageToString w src = Inr s
         \<and> MinimalView_imageFromString w tgt s = Inr w'
         \<and> getColor w src x y = Some p \<and> getColor w' tgt x y = Some q
         \<and> heap w' q
             = Color (r (heap w p)) (g (heap w p)) (b (heap w p)) (Some (a (heap w p))) None"
proof -
  define W where "W = getWidth w src"
  define H where "H = getHeight w src"
  define n where "n = nat H * nat W"
  define cs where "cs = map (\<lambda>(i, j). heap w (the (getColor w src i j))) (rowMajor W H)"
  define gs where "gs = map pixelGroup cs"
  define hW where "hW = numToString (of_int W)"
  define hH where "hH = numToString (of_int H)"
  define s where "s = hW @ '';'' @ hH @ '';'' @ concat (map (\<lambda>t. t @ '';'') gs)"
  define data where "data = hW # hH # gs @ [[]]"
  have W: "0 < W" "W < 2 ^ 32" and H: "0 < H" "H < 2 ^ 32"
    using xy size by (simp_all add: W_def H_def)
  have Hn: "H = int (nat H)" using H by simp
  have len_cs: "length cs = n"
    unfolding cs_def n_def using length_rowMajor [of W "nat H"] Hn by simp
  \<comment> \<open>the text\<close>
  have present: "getColor w src i j \<noteq> None"
    if "0 \<le> i" "i < getWidth w src" "0 \<le> j" "j < getHeight w src" for i j
    using src [OF that] by auto
  have ser: "MinimalView_imageToString w src = Inr s"
    using imageToString_text [of w src, OF present]
    unfolding s_def gs_def cs_def hW_def hH_def W_def H_def
    by (simp add: comp_def case_prod_beta)
  \<comment> \<open>its pieces\<close>
  have plain: "CHR '';'' \<notin> set hW" "CHR '';'' \<notin> set hH"
    using plainTextD [OF numToString_plainText] by (simp_all add: hW_def hH_def)
  have "\<forall>t\<in>set gs. CHR '';'' \<notin> set t"
    by (auto simp: gs_def pixelGroup_no_semicolon)
  then have tail: "String_split CHR '';'' (concat (map (\<lambda>t. t @ '';'') gs)) = gs @ [[]]"
    by (rule String_split_groups)
  have pieces: "String_split CHR '';'' s = data"
    unfolding s_def data_def
    using String_split_append [OF plain(1)] String_split_append [OF plain(2)] tail by simp
  have s_ne: "s \<noteq> []" by (simp add: s_def)
  have "\<bar>W\<bar> < 2 ^ 53" "\<bar>H\<bar> < 2 ^ 53" using W H by simp_all
  then have wWH: "wholeNumber (of_int W)" "wholeNumber (of_int H)"
    by (simp_all only: wholeNumber_of_int)
  have pW: "parseInt (data ! 0) = Some (of_int W)"
    and pH: "parseInt (data ! Suc 0) = Some (of_int H)"
    using wWH by (simp_all add: data_def hW_def hH_def parseInt_numToString)
  have len: "length data = n + 3" by (simp add: data_def gs_def len_cs)
  have area: "of_int W * of_int H = real n"
  proof -
    have "real n = of_int (int (nat H) * int (nat W))" by (simp add: n_def)
    also have "\<dots> = of_int (H * W)" using W H by simp
    finally show ?thesis by (simp add: mult.commute)
  qed
  have fl: "\<lfloor>of_int W * of_int H :: real\<rfloor> = int n" "\<lfloor>of_int W :: real\<rfloor> = W"
    unfolding area by simp_all
  \<comment> \<open>every group loads\<close>
  have cell: "serializable (cs ! k) \<and> data ! nat (int k + 2) = pixelGroup (cs ! k)
      \<and> inside w tgt (int k mod W) (int k div W)
      \<and> cs ! k = heap w (the (getColor w src (int k mod W) (int k div W)))" if "k < n" for k
  proof -
    define i where "i = k mod nat W"
    define j where "j = k div nat W"
    have i: "i < nat W" using W by (simp add: i_def)
    have j: "j < nat H"
      using that W unfolding j_def n_def by (simp add: less_mult_imp_div_less)
    have k: "k = j * nat W + i" by (simp add: i_def j_def)
    have pos: "rowMajor W H ! k = (int i, int j)"
      using rowMajor_nth [OF i j] Hn k by simp
    have ik: "int k = W * int j + int i" using k W by (simp add: mult.commute)
    have ii: "0 \<le> int i" "int i < W" using i by simp_all
    have md: "int k mod W = int i" "int k div W = int j"
      using int_mod_pos_eq [OF ik ii] int_div_pos_eq [OF ik ii] by simp_all
    have jj: "0 \<le> int j" "int j < H" using j by simp_all
    have ck: "cs ! k = heap w (the (getColor w src (int i) (int j)))"
      using that len_cs pos by (simp add: cs_def)
    from src [of "int i" "int j"] ii jj obtain p where
      "getColor w src (int i) (int j) = Some p" "serializable (heap w p)"
      by (auto simp: W_def H_def)
    then have 1: "serializable (cs ! k)" by (simp add: ck)
    have 2: "data ! nat (int k + 2) = pixelGroup (cs ! k)"
    proof -
      have "nat (int k + 2) = Suc (Suc k)" by simp
      then show ?thesis using that len_cs by (simp add: data_def gs_def nth_append)
    qed
    have 3: "inside w tgt (int i) (int j)"
      using tgt [of "int i" "int j"] ii jj by (simp add: W_def H_def)
    show ?thesis using 1 2 3 ck by (simp add: md)
  qed
  have "\<exists>wk. forE [0..int n - 1] (imageFromString_at tgt data W) (0, 0, w)
                 = Inr (int n mod W, int n div W, wk)
            \<and> fresh wk = fresh w + n
            \<and> (\<forall>i j. inside wk tgt i j = inside w tgt i j)
            \<and> (\<forall>k<n. getColor wk tgt (int k mod W) (int k div W) = Some (fresh w + k)
                     \<and> heap wk (fresh w + k)
                         = Color (r (cs ! k)) (g (cs ! k)) (b (cs ! k)) (Some (a (cs ! k))) None)"
  proof (rule load_loop [OF W(1), where n = n and k = n])
    show "serializable (cs ! j) \<and> data ! nat (int j + 2) = pixelGroup (cs ! j)
        \<and> inside w tgt (int j mod W) (int j div W)" if "j < n" for j
      using cell [OF that] by blast
    show "n \<le> n" by simp
  qed
  then obtain w' where
    loop: "forE [0..int n - 1] (imageFromString_at tgt data W) (0, 0, w)
             = Inr (int n mod W, int n div W, w')"
    and got: "\<And>k. k < n \<Longrightarrow> getColor w' tgt (int k mod W) (int k div W) = Some (fresh w + k)
        \<and> heap w' (fresh w + k)
            = Color (r (cs ! k)) (g (cs ! k)) (b (cs ! k)) (Some (a (cs ! k))) None"
    by blast
  have load: "MinimalView_imageFromString w tgt s = Inr w'"
    unfolding MinimalView_imageFromString_def pieces
    using s_ne W H dims len area
    by (simp add: pW pH fl loop W_def [symmetric] H_def [symmetric] Let_def)
  \<comment> \<open>the pixel asked for\<close>
  define k where "k = nat y * nat W + nat x"
  have kn: "k < n"
  proof -
    have "nat x < nat W" "nat y < nat H" using xy by (simp_all add: W_def H_def)
    then have "nat y * nat W + nat x < Suc (nat y) * nat W" by simp
    also have "\<dots> \<le> nat H * nat W"
    proof (rule mult_le_mono1)
      show "Suc (nat y) \<le> nat H" using \<open>nat y < nat H\<close> by (rule Suc_leI)
    qed
    finally show ?thesis by (simp add: k_def n_def)
  qed
  have ik: "int k = W * y + x" using xy W by (simp add: k_def mult.commute)
  have xb: "0 \<le> x" "x < W" using xy by (simp_all add: W_def)
  have md: "int k mod W = x" "int k div W = y"
    using int_mod_pos_eq [OF ik xb] int_div_pos_eq [OF ik xb] by simp_all
  from src [OF xy] obtain p where p: "getColor w src x y = Some p" by auto
  have ck: "cs ! k = heap w p" using cell [OF kn] p by (simp add: md)
  from got [OF kn] have q: "getColor w' tgt x y = Some (fresh w + k)"
    and hq: "heap w' (fresh w + k) = Color (r (heap w p)) (g (heap w p)) (b (heap w p))
        (Some (a (heap w p))) None"
    by (simp_all add: md ck)
  show ?thesis
    using ser load p q hq by blast
qed

theorem imageFromString_imageToString_witness:
  "\<exists>s w' q. MinimalView_imageToString glass_world 0 = Inr s
     \<and> MinimalView_imageFromString glass_world 1 s = Inr w'
     \<and> getColor w' 1 1 0 = Some q
     \<and> heap w' q = Color 255 0 128 (Some (282578800148737 / 562949953421312)) None"
proof -
  have dims: "getWidth glass_world 0 = 2" "getHeight glass_world 0 = 1"
    "getWidth glass_world 1 = 2" "getHeight glass_world 1 = 1"
    by (simp_all add: getWidth_def getHeight_def glass_world_def surface_def)
  have ser: "serializable (Color 10 20 30 (Some 0.5) None)"
    "serializable (Color 255 0 128 (Some (282578800148737 / 562949953421312)) None)"
    by code_simp+
  have g: "getColor glass_world 0 0 0 = Some 0" "getColor glass_world 0 1 0 = Some 1"
    by (simp_all add: getColor_def glass_world_def surface_def)
  have h: "heap glass_world 0 = Color 10 20 30 (Some 0.5) None"
    "heap glass_world 1 = Color 255 0 128 (Some (282578800148737 / 562949953421312)) None"
    by (simp_all add: glass_world_def)
  have ins: "inside glass_world 1 0 0" "inside glass_world 1 1 0"
    by (simp_all add: inside_def glass_world_def surface_def)
  have src: "\<exists>p. getColor glass_world 0 i j = Some p \<and> serializable (heap glass_world p)"
    if "0 \<le> i" "i < getWidth glass_world 0" "0 \<le> j" "j < getHeight glass_world 0" for i j
  proof -
    from that have i: "i = 0 \<or> i = 1" and j: "j = 0" unfolding dims by auto
    from i show ?thesis
    proof
      assume "i = 0"
      then show ?thesis using g(1) h(1) ser(1) j by simp
    next
      assume "i = 1"
      then show ?thesis using g(2) h(2) ser(2) j by simp
    qed
  qed
  have tgt: "inside glass_world 1 i j"
    if "0 \<le> i" "i < getWidth glass_world 0" "0 \<le> j" "j < getHeight glass_world 0" for i j
  proof -
    from that have "i = 0 \<or> i = 1" and j: "j = 0" unfolding dims by auto
    then show ?thesis using ins by auto
  qed
  have "\<exists>s w' p q.
           MinimalView_imageToString glass_world 0 = Inr s
         \<and> MinimalView_imageFromString glass_world 1 s = Inr w'
         \<and> getColor glass_world 0 1 0 = Some p \<and> getColor w' 1 1 0 = Some q
         \<and> heap w' q
             = Color (r (heap glass_world p)) (g (heap glass_world p)) (b (heap glass_world p))
                 (Some (a (heap glass_world p))) None"
  proof (rule imageFromString_imageToString)
    show "getWidth glass_world 1 = getWidth glass_world 0" by (simp only: dims)
    show "getHeight glass_world 1 = getHeight glass_world 0" by (simp only: dims)
    show "getWidth glass_world 0 < 2 ^ 32" by (simp add: dims)
    show "getHeight glass_world 0 < 2 ^ 32" by (simp add: dims)
    show "(0::int) \<le> 1" by simp
    show "1 < getWidth glass_world 0" by (simp add: dims)
    show "(0::int) \<le> 0" by simp
    show "0 < getHeight glass_world 0" by (simp add: dims)
  qed (fact src tgt)+
  then obtain s w' p q where
    "MinimalView_imageToString glass_world 0 = Inr s"
    "MinimalView_imageFromString glass_world 1 s = Inr w'"
    "getColor glass_world 0 1 0 = Some p" "getColor w' 1 1 0 = Some q"
    "heap w' q
       = Color (r (heap glass_world p)) (g (heap glass_world p)) (b (heap glass_world p))
           (Some (a (heap glass_world p))) None"
    by blast
  then show ?thesis using g(2) h(2) by (auto simp: Color_def)
qed

text \<open>
  A whole channel of 1e21 does not come back. The red channel of the one pixel of
  surface 0 is 1e21, a whole number of the engine; it is written as \<^verbatim>\<open>1e+21\<close>, of
  which \<^verbatim>\<open>parseInt\<close> reads the 1: the pixel loaded into surface 1 has a red channel
  of 1.
\<close>

theorem imageFromString_1e21_counterexample:
  "pixel huge_world 0 0 0 = Some (Color (10 ^ 21) 0 0 (Some 1) None)
   \<and> isDouble (10 ^ 21)
   \<and> MinimalView_imageToString huge_world 0 = Inr ''1;1;1e+21,0,0,1;''
   \<and> pixel_after (MinimalView_imageFromString huge_world 1 ''1;1;1e+21,0,0,1;'') 1 0 0
       = Inr (Some (Color 1 0 0 (Some 1) None))"
  by code_simp

section \<open>Edge detection returns\<close>

text \<open>
  The scan of \<^verbatim>\<open>detectEdges\<close> throws only at an absent pixel inside the border of the
  source: where those pixels are present, the call returns.
\<close>

lemma forE_returns:
  assumes "P s"
    and "\<And>i t. i \<in> set xs \<Longrightarrow> P t \<Longrightarrow> \<exists>t'. body i t = Inr t' \<and> P t'"
  shows "\<exists>s'. forE xs body s = Inr s' \<and> P s'"
  using assms
proof (induction xs arbitrary: s)
  case Nil
  then show ?case by simp
next
  case (Cons i xs)
  from Cons.prems(2) [of i s] Cons.prems(1) obtain t where t: "body i s = Inr t" "P t"
    by auto
  from Cons.IH [OF t(2)] Cons.prems(2) obtain s' where "forE xs body t = Inr s'" "P s'"
    by auto
  with t show ?case by simp
qed

lemma getColor_inside: "getColor w v x y \<noteq> None \<Longrightarrow> inside w v x y"
  by (auto simp: getColor_def inside_def Let_def split: if_splits)

lemma getColor_setColor_present:
  assumes "getColor w u x' y' \<noteq> None"
  shows "getColor (setColor w v x y c) u x' y' \<noteq> None"
proof (cases c)
  case None
  with assms show ?thesis by (simp add: setColor_def)
next
  case (Some p)
  show ?thesis
  proof (cases "u = v \<and> x' = x \<and> y' = y")
    case True
    then show ?thesis
      using getColor_setColor_same [OF getColor_inside [OF assms], of p] Some by simp
  next
    case False
    then have "u \<noteq> v \<or> x' \<noteq> x \<or> y' \<noteq> y" by blast
    then show ?thesis using assms by (simp add: getColor_setColor_other)
  qed
qed

lemma detectEdges_at_returns:
  assumes "getColor w src i1 i2 \<noteq> None"
  shows "\<exists>w'. detectEdges_at src dst i1 i2 w = Inr w'
            \<and> (\<forall>x y. getColor w src x y \<noteq> None \<longrightarrow> getColor w' src x y \<noteq> None)"
proof (cases "detectEdges_at src dst i1 i2 w = Inr w")
  case True
  then show ?thesis by auto
next
  case False
  from assms obtain p where p: "getColor w src i1 i2 = Some p" by auto
  with False obtain c q w1 where al: "alloc w c = (q, w1)"
    and run: "detectEdges_at src dst i1 i2 w = Inr (setColor w1 dst i1 i2 (Some q))"
    by (auto simp: detectEdges_at_def Let_def split: prod.splits if_splits)
  have v: "views w1 = views w" by (rule alloc_eq(4) [OF al])
  have "getColor (setColor w1 dst i1 i2 (Some q)) src x y \<noteq> None"
    if "getColor w src x y \<noteq> None" for x y
    by (rule getColor_setColor_present) (use that in \<open>simp add: getColor_views [OF v]\<close>)
  with run show ?thesis by blast
qed

lemma detectEdges_returns:
  assumes "\<And>x y. 1 \<le> x \<Longrightarrow> x \<le> getWidth w src - 2 \<Longrightarrow> 1 \<le> y \<Longrightarrow> y \<le> getHeight w src - 2
             \<Longrightarrow> getColor w src x y \<noteq> None"
  shows "\<exists>w'. Filters_detectEdges w src dst = Inr w'"
proof -
  let ?P = "\<lambda>t. \<forall>x y. getColor w src x y \<noteq> None \<longrightarrow> getColor t src x y \<noteq> None"
  have inner: "\<exists>t'. forE [1..getHeight w src - 2] (detectEdges_at src dst i1) t = Inr t' \<and> ?P t'"
    if i1: "i1 \<in> set [1..getWidth w src - 2]" and t: "?P t" for i1 t
  proof (rule forE_returns [where P = ?P, OF t])
    fix i2 u
    assume i2: "i2 \<in> set [1..getHeight w src - 2]" and u: "?P u"
    have "getColor w src i1 i2 \<noteq> None" using i1 i2 by (intro assms) auto
    then have "getColor u src i1 i2 \<noteq> None" using u by blast
    from detectEdges_at_returns [OF this, of dst] u
    show "\<exists>u'. detectEdges_at src dst i1 i2 u = Inr u' \<and> ?P u'" by blast
  qed
  have "\<exists>w'. forE [1..getWidth w src - 2]
          (\<lambda>iLoop1. forE [1..getHeight w src - 2] (detectEdges_at src dst iLoop1)) w = Inr w'
        \<and> ?P w'"
    by (rule forE_returns [where P = ?P]) (use inner in auto)
  then show ?thesis unfolding Filters_detectEdges_def by blast
qed

end
